theory Spec2Isabelle
  imports Complex_Main
begin

section \<open>Strings and the string methods the analyzer uses\<close>

text \<open>
  A Python \<open>str\<close> is a sequence of Unicode code points and \<open>len\<close> counts code points,
  so a string is modelled as the list of its code points. \<open>lit\<close> turns an ASCII literal
  into such a list.
\<close>

type_synonym ustr = "nat list"

definition lit :: "string \<Rightarrow> ustr" where
  "lit s = map of_char s"

text \<open>
  The characters that \<open>str.split()\<close> and \<open>str.strip()\<close> treat as whitespace
  (the code points for which \<open>str.isspace\<close> holds).
\<close>

definition isspace :: "nat \<Rightarrow> bool" where
  "isspace c \<longleftrightarrow>
     (9 \<le> c \<and> c \<le> 13) \<or> (28 \<le> c \<and> c \<le> 32) \<or> c = 133 \<or> c = 160 \<or> c = 5760 \<or>
     (8192 \<le> c \<and> c \<le> 8202) \<or> c = 8232 \<or> c = 8233 \<or> c = 8239 \<or> c = 8287 \<or> c = 12288"

text \<open>\<open>s.strip()\<close>: whitespace removed at both ends.\<close>

definition strip :: "ustr \<Rightarrow> ustr" where
  "strip s = rev (dropWhile isspace (rev (dropWhile isspace s)))"

text \<open>\<open>s.split()\<close>: the maximal runs of non-whitespace characters, in order.\<close>

function split_ws :: "ustr \<Rightarrow> ustr list" where
  "split_ws [] = []"
| "split_ws (c # cs) =
     (if isspace c then split_ws cs
      else takeWhile (\<lambda>x. \<not> isspace x) (c # cs) # split_ws (dropWhile (\<lambda>x. \<not> isspace x) cs))"
  by pat_completeness auto
termination
proof (relation "measure length")
  fix c :: nat and cs :: "nat list"
  have "length (dropWhile (\<lambda>x. \<not> isspace x) cs) \<le> length cs"
    by (rule length_dropWhile_le)
  then show "(dropWhile (\<lambda>x. \<not> isspace x) cs, c # cs) \<in> measure length"
    by simp
qed simp_all

text \<open>
  \<open>s.split('. ')\<close>: the pieces between the occurrences of a full stop (46) followed by
  a space (32), scanned from the left; the result always has at least one piece, so the
  last branch of the \<open>case\<close> is never taken.
\<close>

fun split_dot_space :: "ustr \<Rightarrow> ustr list" where
  "split_dot_space (c # d # cs) =
     (if c = 46 \<and> d = 32 then [] # split_dot_space cs
      else (case split_dot_space (d # cs) of p # ps \<Rightarrow> (c # p) # ps | [] \<Rightarrow> [[c]]))"
| "split_dot_space cs = [cs]"

section \<open>The chunker\<close>

text \<open>
  One round of the word loop of \<open>_split_text_into_chunks\<close> (it occurs twice in the
  source, once appending to \<open>chunks\<close> and once to \<open>final_chunks\<close>): the state is the
  output list and \<open>temp_chunk\<close>.
\<close>

definition pack_word :: "int \<Rightarrow> ustr list \<times> ustr \<Rightarrow> ustr \<Rightarrow> ustr list \<times> ustr" where
  "pack_word max_chunk_size st word =
     (case st of (out, temp_chunk) \<Rightarrow>
        if int (length (temp_chunk @ [32] @ word)) \<le> max_chunk_size
        then (out, temp_chunk @ (if temp_chunk \<noteq> [] then [32] @ word else word))
        else (if temp_chunk \<noteq> [] then out @ [strip temp_chunk] else out, word))"

text \<open>One round of the sentence loop: the state is \<open>chunks\<close> and \<open>current_chunk\<close>.\<close>

definition add_sentence :: "int \<Rightarrow> ustr list \<times> ustr \<Rightarrow> ustr \<Rightarrow> ustr list \<times> ustr" where
  "add_sentence max_chunk_size st sentence =
     (case st of (chunks, current_chunk) \<Rightarrow>
        let test_chunk = (if current_chunk \<noteq> [] then current_chunk @ sentence @ [46, 32]
                          else sentence @ [46, 32])
        in if int (length test_chunk) \<le> max_chunk_size then (chunks, test_chunk)
           else if current_chunk \<noteq> [] then (chunks @ [strip current_chunk], sentence @ [46, 32])
           else if int (length sentence) > max_chunk_size then
             (case foldl (pack_word max_chunk_size) (chunks, []) (split_ws sentence) of
                (chunks', temp_chunk) \<Rightarrow>
                  (chunks', if temp_chunk \<noteq> [] then temp_chunk @ [46, 32] else current_chunk))
           else (chunks, sentence @ [46, 32]))"

text \<open>One round of the final loop, which re-checks every chunk.\<close>

definition recheck_chunk :: "int \<Rightarrow> ustr list \<Rightarrow> ustr \<Rightarrow> ustr list" where
  "recheck_chunk max_chunk_size final_chunks chunk =
     (if int (length chunk) \<le> max_chunk_size then final_chunks @ [chunk]
      else (case foldl (pack_word max_chunk_size) (final_chunks, []) (split_ws chunk) of
              (final_chunks', temp_chunk) \<Rightarrow>
                if temp_chunk \<noteq> [] then final_chunks' @ [strip temp_chunk] else final_chunks'))"

text \<open>The chunks as they stand after the sentence loop and the "last chunk" step.\<close>

definition sentence_chunks :: "ustr \<Rightarrow> int \<Rightarrow> ustr list" where
  "sentence_chunks text max_chunk_size =
     (case foldl (add_sentence max_chunk_size) ([], []) (split_dot_space text) of
        (chunks, current_chunk) \<Rightarrow>
          if current_chunk \<noteq> [] then chunks @ [strip current_chunk] else chunks)"

definition split_text_into_chunks :: "ustr \<Rightarrow> int \<Rightarrow> ustr list" where
  "split_text_into_chunks text max_chunk_size =
     foldl (recheck_chunk max_chunk_size) [] (sentence_chunks text max_chunk_size)"

section \<open>Errors and messages\<close>

text \<open>
  The exceptions that the modelled code can meet: a failure of a request to an external
  service (with its message), \<open>ValueError\<close> from numpy or the JSON parser, and
  \<open>AttributeError\<close> from calling \<open>.get\<close> on a value that is not a dictionary.
\<close>

datatype exn = RequestError ustr | ValueError | AttributeError

text \<open>
  Every \<open>except\<close> block of the analyzer reports through \<open>st.error\<close> and returns a
  fixed value; the messages are modelled by what they say.
\<close>

datatype message = EmbeddingFailed exn | JsonNotFound | AnalysisFailed exn | StoreFailed exn

section \<open>The embedding aggregator\<close>

text \<open>
  A Python float (a float64): a finite number or one of the special values. Its
  arithmetic rounds and overflows, so it is never computed here: what numpy does with
  floats is left as a parameter.
\<close>

datatype pyfloat = Finite rat | NegZero | PosInf | NegInf | NaN

text \<open>
  The embedding service is external: \<open>svc i x\<close> is the outcome of the \<open>i\<close>-th request
  of a run (counted from 0) on input \<open>x\<close>, either an exception or the vector
  \<open>response.data[0].embedding\<close>, a list of floats.
\<close>

type_synonym embedder = "nat \<Rightarrow> ustr \<Rightarrow> exn + pyfloat list"

text \<open>
  What a run of \<open>get_embedding\<close> does: the list it returns, the inputs of the requests
  it issued, in order, and what it reported through \<open>st.error\<close>.
\<close>

record embed_run =
  returned :: "pyfloat list"
  requests :: "ustr list"
  reported :: "message list"

text \<open>
  The loop over the chunks: request \<open>i\<close> is for the first chunk left; an exception
  leaves the loop at once. The result carries the embeddings collected and the requests
  issued.
\<close>

fun embed_chunks ::
  "embedder \<Rightarrow> nat \<Rightarrow> ustr list \<Rightarrow> pyfloat list list \<Rightarrow>
     (exn + pyfloat list list) \<times> ustr list" where
  "embed_chunks svc i [] embeddings = (Inr embeddings, [])"
| "embed_chunks svc i (chunk # chunks) embeddings =
     (case svc i chunk of
        Inl e \<Rightarrow> (Inl e, [chunk])
      | Inr v \<Rightarrow> (case embed_chunks svc (Suc i) chunks (embeddings @ [v]) of
                   (r, reqs) \<Rightarrow> (r, chunk # reqs)))"

text \<open>
  \<open>np.mean(embeddings, axis=0).tolist()\<close>: when all rows have one length, entry
  \<open>j\<close> of the result is numpy's float64 mean of the entries \<open>j\<close> of the rows (their
  float64 sum divided by their number), which the parameter \<open>mean\<close> stands for;
  rows of different lengths raise an exception. \<open>get_embedding\<close> calls it on a non-empty
  list only.
\<close>

definition np_mean_axis0 ::
  "(pyfloat list \<Rightarrow> pyfloat) \<Rightarrow> pyfloat list list \<Rightarrow> exn + pyfloat list" where
  "np_mean_axis0 mean rows =
     (case rows of
        [] \<Rightarrow> Inl ValueError
      | r0 # _ \<Rightarrow>
          if \<forall>r\<in>set rows. length r = length r0
          then Inr (map (\<lambda>j. mean (map (\<lambda>r. r ! j) rows)) [0..<length r0])
          else Inl ValueError)"

definition get_embedding ::
  "(pyfloat list \<Rightarrow> pyfloat) \<Rightarrow> embedder \<Rightarrow> ustr \<Rightarrow> embed_run" where
  "get_embedding mean svc text =
     (let max_chunk_size = 4000 in
      if int (length text) \<le> max_chunk_size then
        (case svc 0 text of
           Inr v \<Rightarrow> \<lparr>returned = v, requests = [text], reported = []\<rparr>
         | Inl e \<Rightarrow> \<lparr>returned = [], requests = [text], reported = [EmbeddingFailed e]\<rparr>)
      else
        (case embed_chunks svc 0 (split_text_into_chunks text max_chunk_size) [] of
           (Inl e, reqs) \<Rightarrow> \<lparr>returned = [], requests = reqs, reported = [EmbeddingFailed e]\<rparr>
         | (Inr embeddings, reqs) \<Rightarrow>
             if embeddings \<noteq> [] then
               (case np_mean_axis0 mean embeddings of
                  Inr avg_embedding \<Rightarrow> \<lparr>returned = avg_embedding, requests = reqs, reported = []\<rparr>
                | Inl e \<Rightarrow> \<lparr>returned = [], requests = reqs, reported = [EmbeddingFailed e]\<rparr>)
             else \<lparr>returned = [], requests = reqs, reported = []\<rparr>))"

section \<open>Analysis objects\<close>

text \<open>
  An analysis is what \<open>json.loads\<close> returns: a JSON value. A dictionary is kept as the
  list of its items and read with \<open>map_of\<close>. A number is an integer or a float
  (\<open>json.loads\<close> accepts the special floats too).
\<close>

datatype json =
    JNull
  | JBool bool
  | JInt int
  | JFloat pyfloat
  | JStr ustr
  | JArr "json list"
  | JObj "(ustr \<times> json) list"

text \<open>The truth value Python gives a JSON value in \<open>if req\<close>.\<close>

fun truthy :: "json \<Rightarrow> bool" where
  "truthy JNull = False"
| "truthy (JBool b) = b"
| "truthy (JInt i) = (i \<noteq> 0)"
| "truthy (JFloat f) = (f \<noteq> Finite 0 \<and> f \<noteq> NegZero)"
| "truthy (JStr s) = (s \<noteq> [])"
| "truthy (JArr xs) = (xs \<noteq> [])"
| "truthy (JObj kvs) = (kvs \<noteq> [])"

text \<open>\<open>d.get(key, fallback)\<close>; only a dictionary has the method.\<close>

definition dict_get :: "json \<Rightarrow> ustr \<Rightarrow> json \<Rightarrow> exn + json" where
  "dict_get d key fallback =
     (case d of
        JObj kvs \<Rightarrow> Inr (case map_of kvs key of Some v \<Rightarrow> v | None \<Rightarrow> fallback)
      | _ \<Rightarrow> Inl AttributeError)"

text \<open>
  A value inside an f-string: a string stands for itself, any other value for what
  Python's \<open>str\<close> makes of it, which is left as the parameter \<open>py_str\<close>.
\<close>

definition format_value :: "(json \<Rightarrow> ustr) \<Rightarrow> json \<Rightarrow> ustr" where
  "format_value py_str v = (case v of JStr s \<Rightarrow> s | _ \<Rightarrow> py_str v)"

text \<open>The string \<open>json.dumps(v, ensure_ascii=False)\<close>, kept as the value it serialises.\<close>

datatype dumped = Dumps json

subsection \<open>The keys\<close>

text \<open>
  The category and sub-field keys are Korean strings; each is written as its code points
  and named by its meaning.
\<close>

definition key_core_overview :: ustr where
  "key_core_overview = [49, 95, 54645, 49900, 44060, 50836]"

definition key_background_purpose :: ustr where
  "key_background_purpose = [48176, 44221, 47785, 51201]"

definition key_expected_outcome :: ustr where
  "key_expected_outcome = [44592, 45824, 49457, 44284]"

definition key_schedule_milestones :: ustr where
  "key_schedule_milestones = [50, 95, 51068, 51221, 47560, 51068, 49828, 53668]"

definition key_qa_deadline :: ustr where
  "key_qa_deadline = [51656, 51032, 51025, 45813, 47560, 44048]"

definition key_budget_price :: ustr where
  "key_budget_price = [51, 95, 50696, 49328, 44032, 44201]"

definition key_estimated_budget :: ustr where
  "key_estimated_budget = [52628, 51221, 50696, 49328]"

definition key_evaluation :: ustr where
  "key_evaluation = [52, 95, 54217, 44032, 49440, 51221, 44592, 51456]"

definition key_scoring :: ustr where
  "key_scoring = [51221, 47049, 51221, 49457, 48176, 51216]"

definition key_bonus_penalty :: ustr where
  "key_bonus_penalty = [44032, 51216, 44048, 51216, 50836, 44148]"

definition key_disqualification :: ustr where
  "key_disqualification = [53448, 46973, 54596, 49688, 50836, 44148]"

definition key_requirements :: ustr where
  "key_requirements = [53, 95, 50836, 44396, 49324, 54637]"

definition key_functional :: ustr where
  "key_functional = [44592, 45733, 50836, 44396]"

definition key_non_functional :: ustr where
  "key_non_functional = [48708, 44592, 45733, 50836, 44396]"

definition key_interface :: ustr where
  "key_interface = [51064, 53552, 54168, 51060, 49828, 50672, 44228]"

definition key_data :: ustr where
  "key_data = [45936, 51060, 53552]"

definition key_compatibility :: ustr where
  "key_compatibility = [54840, 54872, 49457, 54364, 51456]"


section \<open>The stored document\<close>

text \<open>
  The dictionary handed to the search index, field by field (\<open>id\<close> and \<open>content\<close>
  are named \<open>doc_id\<close> and \<open>doc_content\<close> here).
\<close>

record document =
  doc_id :: ustr
  title :: ustr
  doc_content :: ustr
  requirements :: dumped
  project_type :: json
  budget_range :: json
  submission_deadline :: json
  evaluation_criteria :: dumped
  created_date :: ustr
  content_vector :: "pyfloat list"

section \<open>Reading the model's response\<close>

text \<open>
  \<open>re.search(r'\{.*\}', content, re.DOTALL)\<close>: the match starts at the first opening
  brace (123) and, \<open>.*\<close> being greedy and matching newlines too, ends at the last closing
  brace (125) after it; there is no match when no closing brace follows the first opening
  one.
\<close>

definition json_match :: "ustr \<Rightarrow> ustr option" where
  "json_match content =
     (let rest = dropWhile (\<lambda>c. c \<noteq> 123) content
      in if 125 \<in> set rest then Some (rev (dropWhile (\<lambda>c. c \<noteq> 125) (rev rest))) else None)"

text \<open>
  The external collaborators of the analyzer: the chat service (the outcome of the
  request for a prompt: an exception or \<open>response.choices[0].message.content\<close>), the
  prompt template, \<open>json.loads\<close>, the embedding service, numpy's mean of a column of
  floats, Python's \<open>str\<close>, the two
  strings made from the clock, and the upload to the search index (an exception or the
  number of results).
\<close>

record services =
  chat :: "ustr \<Rightarrow> exn + ustr"
  prompt :: "ustr \<Rightarrow> ustr"
  loads :: "ustr \<Rightarrow> exn + json"
  embed :: embedder
  column_mean :: "pyfloat list \<Rightarrow> pyfloat"
  py_str :: "json \<Rightarrow> ustr"
  timestamp_id :: ustr
  timestamp_iso :: ustr
  upload_documents :: "document \<Rightarrow> exn + nat"

record analysis_run =
  analysis :: json
  chat_requests :: "ustr list"
  analysis_reported :: "message list"

definition analyze_rfp_with_gpt :: "services \<Rightarrow> ustr \<Rightarrow> analysis_run" where
  "analyze_rfp_with_gpt sv rfp_content =
     (let p = prompt sv rfp_content in
      case chat sv p of
        Inl e \<Rightarrow> \<lparr>analysis = JObj [], chat_requests = [p], analysis_reported = [AnalysisFailed e]\<rparr>
      | Inr content \<Rightarrow>
          (case json_match content of
             Some matched \<Rightarrow>
               (case loads sv matched of
                  Inr j \<Rightarrow> \<lparr>analysis = j, chat_requests = [p], analysis_reported = []\<rparr>
                | Inl e \<Rightarrow> \<lparr>analysis = JObj [], chat_requests = [p],
                            analysis_reported = [AnalysisFailed e]\<rparr>)
           | None \<Rightarrow> \<lparr>analysis = JObj [], chat_requests = [p], analysis_reported = [JsonNotFound]\<rparr>))"

text \<open>
  The span the specification describes, for comparison: from the first opening brace to
  the closing brace that balances it. \<open>balanced_run d cs\<close> reads on at nesting depth
  \<open>d\<close>.
\<close>

fun balanced_run :: "nat \<Rightarrow> ustr \<Rightarrow> ustr option" where
  "balanced_run d [] = None"
| "balanced_run d (c # cs) =
     (if c = 123 then map_option ((#) c) (balanced_run (Suc d) cs)
      else if c = 125 then (if d \<le> 1 then Some [c] else map_option ((#) c) (balanced_run (d - 1) cs))
      else map_option ((#) c) (balanced_run d cs))"

definition first_balanced_span :: "ustr \<Rightarrow> ustr option" where
  "first_balanced_span content =
     (case dropWhile (\<lambda>c. c \<noteq> 123) content of
        [] \<Rightarrow> None
      | c # cs \<Rightarrow> map_option ((#) c) (balanced_run 1 cs))"

section \<open>Flattening an analysis for storage\<close>

text \<open>An exception ends the \<open>try\<close> block: the steps after it do not run.\<close>

definition and_then :: "exn + 'a \<Rightarrow> ('a \<Rightarrow> exn + 'b) \<Rightarrow> exn + 'b" where
  "and_then r f = (case r of Inl e \<Rightarrow> Inl e | Inr x \<Rightarrow> f x)"

text \<open>The values of \<open>d.get(k, "")\<close> for the keys \<open>k\<close> of a list, in order.\<close>

fun get_each :: "json \<Rightarrow> ustr list \<Rightarrow> exn + json list" where
  "get_each d [] = Inr []"
| "get_each d (k # ks) =
     and_then (dict_get d k (JStr [])) (\<lambda>v. and_then (get_each d ks) (\<lambda>vs. Inr (v # vs)))"

text \<open>\<open>if pdf_title\<close>: the title is neither \<open>None\<close> nor the empty string.\<close>

definition title_given :: "ustr option \<Rightarrow> bool" where
  "title_given pdf_title = (case pdf_title of None \<Rightarrow> False | Some t \<Rightarrow> t \<noteq> [])"

definition project_overview :: "(json \<Rightarrow> ustr) \<Rightarrow> (ustr \<times> json) list \<Rightarrow> exn + ustr" where
  "project_overview pstr rfp_analysis =
     (case map_of rfp_analysis key_core_overview of
        None \<Rightarrow> Inr []
      | Some core_overview \<Rightarrow>
          and_then (dict_get core_overview key_background_purpose (JStr [])) (\<lambda>background.
          and_then (dict_get core_overview key_expected_outcome (JStr [])) (\<lambda>outcome.
          Inr (strip (format_value pstr background @ [32] @ format_value pstr outcome)))))"

definition document_title ::
  "(json \<Rightarrow> ustr) \<Rightarrow> (ustr \<times> json) list \<Rightarrow> ustr option \<Rightarrow> exn + ustr" where
  "document_title pstr rfp_analysis pdf_title =
     (if title_given pdf_title then Inr (the pdf_title)
      else and_then (project_overview pstr rfp_analysis) (\<lambda>overview.
           Inr (if overview \<noteq> [] then take 100 overview else lit ''RFP Document'')))"

definition budget_range_of :: "(ustr \<times> json) list \<Rightarrow> exn + json" where
  "budget_range_of rfp_analysis =
     (case map_of rfp_analysis key_budget_price of
        None \<Rightarrow> Inr (JStr [])
      | Some budget_info \<Rightarrow> dict_get budget_info key_estimated_budget (JStr []))"

definition submission_deadline_of :: "(ustr \<times> json) list \<Rightarrow> exn + json" where
  "submission_deadline_of rfp_analysis =
     (case map_of rfp_analysis key_schedule_milestones of
        None \<Rightarrow> Inr (JStr [])
      | Some schedule_info \<Rightarrow> dict_get schedule_info key_qa_deadline (JStr []))"

definition requirement_keys :: "ustr list" where
  "requirement_keys =
     [key_functional, key_non_functional, key_interface, key_data, key_compatibility]"

definition technical_requirements :: "(ustr \<times> json) list \<Rightarrow> exn + json list" where
  "technical_requirements rfp_analysis =
     (case map_of rfp_analysis key_requirements of
        None \<Rightarrow> Inr []
      | Some requirements_info \<Rightarrow>
          and_then (get_each requirements_info requirement_keys) (\<lambda>reqs.
          Inr (filter truthy reqs)))"

definition evaluation_keys :: "ustr list" where
  "evaluation_keys = [key_scoring, key_bonus_penalty, key_disqualification]"

definition evaluation_criteria_of :: "(ustr \<times> json) list \<Rightarrow> exn + json" where
  "evaluation_criteria_of rfp_analysis =
     (case map_of rfp_analysis key_evaluation of
        None \<Rightarrow> Inr (JObj [])
      | Some eval_info \<Rightarrow>
          and_then (get_each eval_info evaluation_keys) (\<lambda>vs.
          Inr (JObj (zip evaluation_keys vs))))"

text \<open>
  The part of \<open>store_rfp_in_search\<close> between the embedding and the upload: the local
  variables in the order of the source, then the \<open>document\<close> dictionary.
\<close>

definition build_document ::
  "services \<Rightarrow> pyfloat list \<Rightarrow> (ustr \<times> json) list \<Rightarrow> ustr \<Rightarrow> ustr option \<Rightarrow> exn + document" where
  "build_document sv vec rfp_analysis rfp_content pdf_title =
     and_then (document_title (py_str sv) rfp_analysis pdf_title) (\<lambda>document_title.
     and_then (budget_range_of rfp_analysis) (\<lambda>budget.
     and_then (submission_deadline_of rfp_analysis) (\<lambda>deadline.
     and_then (technical_requirements rfp_analysis) (\<lambda>reqs.
     and_then (evaluation_criteria_of rfp_analysis) (\<lambda>criteria.
     Inr \<lparr>doc_id = lit ''rfp_'' @ timestamp_id sv,
          title = document_title,
          doc_content = rfp_content,
          requirements = Dumps (JArr reqs),
          project_type = (case map_of rfp_analysis (lit ''project_type'') of
                            Some v \<Rightarrow> v | None \<Rightarrow> JStr []),
          budget_range = budget,
          submission_deadline = deadline,
          evaluation_criteria = Dumps criteria,
          created_date = timestamp_iso sv @ lit ''Z'',
          content_vector = vec\<rparr>)))))"

text \<open>
  What a run of \<open>store_rfp_in_search\<close> does: the boolean it returns, the document it
  handed to the index (if it got that far), the embedding run and its own report.
\<close>

record store_run =
  stored :: bool
  document_sent :: "document option"
  embedding_run :: embed_run
  store_reported :: "message list"

definition store_rfp_in_search ::
  "services \<Rightarrow> (ustr \<times> json) list \<Rightarrow> ustr \<Rightarrow> ustr option \<Rightarrow> store_run" where
  "store_rfp_in_search sv rfp_analysis rfp_content pdf_title =
     (let er = get_embedding (column_mean sv) (embed sv) rfp_content in
      case build_document sv (returned er) rfp_analysis rfp_content pdf_title of
        Inl e \<Rightarrow> \<lparr>stored = False, document_sent = None, embedding_run = er,
                    store_reported = [StoreFailed e]\<rparr>
      | Inr document \<Rightarrow>
          (case upload_documents sv document of
             Inl e \<Rightarrow> \<lparr>stored = False, document_sent = Some document, embedding_run = er,
                         store_reported = [StoreFailed e]\<rparr>
           | Inr n \<Rightarrow> \<lparr>stored = (0 < n), document_sent = Some document, embedding_run = er,
                         store_reported = []\<rparr>))"

section \<open>Notions used to state the properties\<close>

text \<open>A single word: a non-empty string without whitespace, which \<open>split()\<close> cannot divide.\<close>

definition single_word :: "ustr \<Rightarrow> bool" where
  "single_word c \<longleftrightarrow> c \<noteq> [] \<and> (\<forall>x\<in>set c. \<not> isspace x)"

definition chunk_ok :: "int \<Rightarrow> ustr \<Rightarrow> bool" where
  "chunk_ok n c \<longleftrightarrow> int (length c) \<le> n \<or> single_word c"

text \<open>The invariant of the word loop: what has been emitted is fine, and \<open>temp_chunk\<close>
  is within the limit or free of whitespace.\<close>

definition pack_inv :: "int \<Rightarrow> ustr list \<times> ustr \<Rightarrow> bool" where
  "pack_inv n st \<longleftrightarrow>
     (\<forall>c\<in>set (fst st). chunk_ok n c) \<and>
     (int (length (snd st)) \<le> n \<or> (\<forall>x\<in>set (snd st). \<not> isspace x))"

text \<open>The characters of a string that are not whitespace, in order.\<close>

definition nonspace :: "ustr \<Rightarrow> ustr" where
  "nonspace s = filter (\<lambda>x. \<not> isspace x) s"

text \<open>The words a loop state carries: those emitted so far, then those pending.\<close>

definition words_carried :: "ustr list \<times> ustr \<Rightarrow> ustr list" where
  "words_carried st = concat (map split_ws (fst st)) @ split_ws (snd st)"

text \<open>A pending chunk that ends in a word, and one that is empty or ends in whitespace.\<close>

definition ends_word :: "ustr \<Rightarrow> bool" where
  "ends_word t \<longleftrightarrow> t \<noteq> [] \<and> \<not> isspace (last t)"

definition ends_space :: "ustr \<Rightarrow> bool" where
  "ends_space t \<longleftrightarrow> t = [] \<or> isspace (last t)"

text \<open>A list of words with a full stop put after the last one.\<close>

definition dot_last :: "ustr list \<Rightarrow> ustr list" where
  "dot_last ws = (if ws = [] then [] else butlast ws @ [last ws @ [46]])"

text \<open>The chunks with their separators restored: a space after each chunk.\<close>

definition join_chunks :: "ustr list \<Rightarrow> ustr" where
  "join_chunks chunks = concat (map (\<lambda>c. c @ [32]) chunks)"

text \<open>
  Two lists of words are the same up to full stops: every word of the first list is kept
  whole and in its place, except that a word that is a full stop alone may be attached to
  the word before it or, when \<open>dropping\<close> holds, left out.
\<close>

inductive same_words :: "bool \<Rightarrow> ustr list \<Rightarrow> ustr list \<Rightarrow> bool" for dropping :: bool where
  empty: "same_words dropping [] []"
| keep: "same_words dropping ws vs \<Longrightarrow> same_words dropping (w # ws) (w # vs)"
| attach: "same_words dropping ws vs \<Longrightarrow> same_words dropping (w # [46] # ws) ((w @ [46]) # vs)"
| leave_out: "dropping \<Longrightarrow> same_words dropping ws vs \<Longrightarrow> same_words dropping ([46] # ws) vs"

code_pred same_words .

text \<open>
  The value of sub-field \<open>k\<close> of category \<open>cat\<close> in an analysis, the empty string when
  the category or the sub-field is absent.
\<close>

definition sub_field :: "(ustr \<times> json) list \<Rightarrow> ustr \<Rightarrow> ustr \<Rightarrow> json" where
  "sub_field rfp_analysis cat k =
     (case map_of rfp_analysis cat of
        Some (JObj kvs) \<Rightarrow> (case map_of kvs k of Some v \<Rightarrow> v | None \<Rightarrow> JStr [])
      | _ \<Rightarrow> JStr [])"

text \<open>
  A fixed choice of the external collaborators for the examples: the chat service answers
  with some prose and one JSON object (the key \<open>k\<close> bound to 1), which
  \<open>json.loads\<close> reads; the second and every later embedding request of a run fails;
  the mean of a column is the exact mean of its finite entries.
\<close>

definition example_mean :: "pyfloat list \<Rightarrow> pyfloat" where
  "example_mean col =
     Finite (sum_list (map (\<lambda>x. case x of Finite q \<Rightarrow> q | _ \<Rightarrow> 0) col) / of_nat (length col))"

definition example_object :: ustr where
  "example_object = [123, 34, 107, 34, 58, 32, 49, 125]"

definition example_services :: services where
  "example_services =
     \<lparr>chat = (\<lambda>p. Inr (lit ''Here is the analysis: '' @ example_object)),
      prompt = (\<lambda>rfp_content. lit ''RFP: '' @ rfp_content),
      loads = (\<lambda>s. if s = example_object then Inr (JObj [(lit ''k'', JInt 1)])
                   else Inl ValueError),
      embed = (\<lambda>i x. if i = 0 then Inr [Finite 1, Finite 2, Finite 3]
                     else Inl (RequestError (lit ''timeout''))),
      column_mean = example_mean,
      py_str = (\<lambda>v. lit ''?''),
      timestamp_id = lit ''20250101_000000'',
      timestamp_iso = lit ''2025-01-01T00:00:00'',
      upload_documents = (\<lambda>d. Inr 1)\<rparr>"

section \<open>Properties of the string methods\<close>


lemma isspace_32 [simp]: "isspace 32"
  by (simp add: isspace_def)

lemma not_isspace_46 [simp]: "\<not> isspace 46"
  by (simp add: isspace_def)

lemma split_ws_word:
  "w \<in> set (split_ws s) \<Longrightarrow> w \<noteq> [] \<and> (\<forall>x\<in>set w. \<not> isspace x)"
proof (induction s rule: split_ws.induct)
  case 1
  then show ?case by simp
next
  case (2 c cs)
  show ?case
  proof (cases "isspace c")
    case True
    with "2.prems" have "w \<in> set (split_ws cs)" by simp
    with "2.IH"(1) True show ?thesis by blast
  next
    case False
    with "2.prems" have "w = c # takeWhile (\<lambda>x. \<not> isspace x) cs \<or>
        w \<in> set (split_ws (dropWhile (\<lambda>x. \<not> isspace x) cs))"
      by simp
    then show ?thesis
    proof
      assume w: "w = c # takeWhile (\<lambda>x. \<not> isspace x) cs"
      have "\<forall>x\<in>set (takeWhile (\<lambda>x. \<not> isspace x) cs). \<not> isspace x"
        by (blast dest: set_takeWhileD)
      with w False show ?thesis by simp
    next
      assume "w \<in> set (split_ws (dropWhile (\<lambda>x. \<not> isspace x) cs))"
      with "2.IH"(2) False show ?thesis by blast
    qed
  qed
qed

lemma filter_take_drop_While: "filter P xs = takeWhile P xs @ filter P (dropWhile P xs)"
  by (induction xs) auto

lemma concat_split_ws: "concat (split_ws s) = filter (\<lambda>x. \<not> isspace x) s"
proof (induction s rule: split_ws.induct)
  case 1
  show ?case by simp
next
  case (2 c cs)
  show ?case
  proof (cases "isspace c")
    case True
    with "2.IH"(1) show ?thesis by simp
  next
    case False
    with "2.IH"(2) have "concat (split_ws (c # cs)) =
        c # takeWhile (\<lambda>x. \<not> isspace x) cs @
          filter (\<lambda>x. \<not> isspace x) (dropWhile (\<lambda>x. \<not> isspace x) cs)"
      by simp
    also have "\<dots> = c # filter (\<lambda>x. \<not> isspace x) cs"
      using filter_take_drop_While[of "\<lambda>x. \<not> isspace x" cs] by simp
    finally show ?thesis using False by simp
  qed
qed

lemma strip_no_space: "\<forall>x\<in>set w. \<not> isspace x \<Longrightarrow> strip w = w"
proof -
  assume w: "\<forall>x\<in>set w. \<not> isspace x"
  then have "dropWhile isspace w = w"
    by (cases w) simp_all
  moreover from w have "dropWhile isspace (rev w) = rev w"
    by (cases "rev w") (simp, metis dropWhile.simps(2) list.set_intros(1) set_rev)
  ultimately show ?thesis by (simp add: strip_def)
qed

lemma length_strip_le: "length (strip s) \<le> length s"
proof -
  have "length (strip s) \<le> length (dropWhile isspace s)"
    unfolding strip_def using length_dropWhile_le[of isspace "rev (dropWhile isspace s)"] by simp
  also have "\<dots> \<le> length s" by (rule length_dropWhile_le)
  finally show ?thesis .
qed

lemma filter_dropWhile_space:
  "filter (\<lambda>x. \<not> isspace x) (dropWhile isspace s) = filter (\<lambda>x. \<not> isspace x) s"
  by (induction s) auto

lemma filter_strip: "filter (\<lambda>x. \<not> isspace x) (strip s) = filter (\<lambda>x. \<not> isspace x) s"
proof -
  have "filter (\<lambda>x. \<not> isspace x) (strip s) =
        rev (filter (\<lambda>x. \<not> isspace x) (dropWhile isspace (rev (dropWhile isspace s))))"
    by (simp add: strip_def rev_filter)
  also have "\<dots> = rev (filter (\<lambda>x. \<not> isspace x) (rev (dropWhile isspace s)))"
    by (simp only: filter_dropWhile_space)
  also have "\<dots> = filter (\<lambda>x. \<not> isspace x) (dropWhile isspace s)"
    by (simp add: rev_filter)
  finally show ?thesis by (simp only: filter_dropWhile_space)
qed


section \<open>The chunker: the size of the chunks\<close>

lemma chunk_ok_strip:
  assumes "t \<noteq> []" and "int (length t) \<le> n \<or> (\<forall>x\<in>set t. \<not> isspace x)"
  shows "chunk_ok n (strip t)"
proof (cases "\<forall>x\<in>set t. \<not> isspace x")
  case True
  with assms(1) show ?thesis by (simp add: chunk_ok_def single_word_def strip_no_space)
next
  case False
  with assms(2) have "int (length t) \<le> n" by blast
  with length_strip_le[of t] show ?thesis by (simp add: chunk_ok_def)
qed

lemma pack_word_inv:
  assumes "pack_inv n st" and "\<forall>x\<in>set w. \<not> isspace x"
  shows "pack_inv n (pack_word n st w)"
proof -
  obtain out t where st: "st = (out, t)" by (cases st)
  show ?thesis
  proof (cases "int (length (t @ [32] @ w)) \<le> n")
    case True
    then have "pack_word n (out, t) w = (out, t @ (if t \<noteq> [] then [32] @ w else w))"
      by (simp add: pack_word_def)
    moreover from True have "int (length (t @ (if t \<noteq> [] then [32] @ w else w))) \<le> n"
      by simp
    ultimately show ?thesis using assms(1) by (simp add: pack_inv_def st)
  next
    case False
    then have eq: "pack_word n (out, t) w = (if t \<noteq> [] then out @ [strip t] else out, w)"
      by (simp add: pack_word_def)
    have "t \<noteq> [] \<Longrightarrow> chunk_ok n (strip t)"
      using assms(1) by (intro chunk_ok_strip) (simp_all add: pack_inv_def st)
    then show ?thesis using assms by (simp add: eq pack_inv_def st)
  qed
qed

lemma pack_words_inv:
  "pack_inv n st \<Longrightarrow> \<forall>w\<in>set ws. \<forall>x\<in>set w. \<not> isspace x \<Longrightarrow>
   pack_inv n (foldl (pack_word n) st ws)"
  by (induction ws arbitrary: st) (simp_all add: pack_word_inv)

lemma recheck_chunk_ok:
  assumes "\<forall>c\<in>set fc. chunk_ok n c"
  shows "\<forall>c\<in>set (recheck_chunk n fc chunk). chunk_ok n c"
proof (cases "int (length chunk) \<le> n")
  case True
  with assms show ?thesis by (simp add: recheck_chunk_def chunk_ok_def)
next
  case False
  obtain fc' t where r: "foldl (pack_word n) (fc, []) (split_ws chunk) = (fc', t)"
    by (cases "foldl (pack_word n) (fc, []) (split_ws chunk)")
  have "pack_inv n (fc, [])" using assms by (simp add: pack_inv_def)
  then have "pack_inv n (foldl (pack_word n) (fc, []) (split_ws chunk))"
    by (rule pack_words_inv) (blast dest: split_ws_word)
  then have inv: "pack_inv n (fc', t)" by (simp only: r)
  then have "t \<noteq> [] \<Longrightarrow> chunk_ok n (strip t)"
    by (intro chunk_ok_strip) (simp_all add: pack_inv_def)
  with inv show ?thesis using False by (simp add: recheck_chunk_def r pack_inv_def)
qed

lemma recheck_all_ok:
  "\<forall>c\<in>set fc. chunk_ok n c \<Longrightarrow> \<forall>c\<in>set (foldl (recheck_chunk n) fc chunks). chunk_ok n c"
proof (induction chunks arbitrary: fc)
  case Nil
  then show ?case by simp
next
  case (Cons a chunks)
  from Cons.prems have "\<forall>c\<in>set (recheck_chunk n fc a). chunk_ok n c"
    by (rule recheck_chunk_ok)
  then show ?case using Cons.IH by simp
qed

section \<open>The chunker: what the chunks contain\<close>


lemma nonspace_Nil [simp]: "nonspace [] = []"
  by (simp add: nonspace_def)

lemma nonspace_append [simp]: "nonspace (a @ b) = nonspace a @ nonspace b"
  by (simp add: nonspace_def)

lemma nonspace_dot_space [simp]: "nonspace [46, 32] = [46]"
  by (simp add: nonspace_def)

lemma nonspace_words: "concat (split_ws s) = nonspace s"
  by (simp add: nonspace_def concat_split_ws)

lemma split_dot_space_not_Nil: "split_dot_space t \<noteq> []"
  by (induction t rule: split_dot_space.induct) (auto split: list.splits)

subsection \<open>Splitting texts of a known shape\<close>

lemma split_dot_space_no_dot: "46 \<notin> set t \<Longrightarrow> split_dot_space t = [t]"
  by (induction t rule: split_dot_space.induct) auto

lemma split_ws_all_space: "\<forall>x\<in>set t. isspace x \<Longrightarrow> split_ws t = []"
  by (induction t) simp_all

lemma split_ws_single:
  assumes "single_word w"
  shows "split_ws w = [w]"
proof -
  from assms obtain a w' where w: "w = a # w'" and a: "\<not> isspace a"
    and w': "\<forall>x\<in>set w'. \<not> isspace x"
    by (cases w) (auto simp: single_word_def)
  have tw: "takeWhile (\<lambda>x. \<not> isspace x) (a # w') = a # w'"
    using a w' by simp
  have dw: "dropWhile (\<lambda>x. \<not> isspace x) w' = []"
    using w' by simp
  have "split_ws (a # w') =
      takeWhile (\<lambda>x. \<not> isspace x) (a # w') # split_ws (dropWhile (\<lambda>x. \<not> isspace x) w')"
    using a by (simp only: split_ws.simps if_False)
  also have "\<dots> = [a # w']"
    by (simp only: tw dw split_ws.simps)
  finally show ?thesis by (simp only: w)
qed

lemma split_ws_two:
  assumes "single_word a" and "single_word b"
  shows "split_ws (a @ 32 # b) = [a, b]"
proof -
  from assms(1) obtain x a' where a: "a = x # a'" and x: "\<not> isspace x"
    and a': "\<forall>y\<in>set a'. \<not> isspace y"
    by (cases a) (auto simp: single_word_def)
  have tw: "takeWhile (\<lambda>y. \<not> isspace y) (x # a' @ 32 # b) = x # a'"
    using x a' by simp
  have dw: "dropWhile (\<lambda>y. \<not> isspace y) (a' @ 32 # b) = 32 # b"
    using a' by simp
  have "split_ws (x # a' @ 32 # b) =
      takeWhile (\<lambda>y. \<not> isspace y) (x # a' @ 32 # b) #
      split_ws (dropWhile (\<lambda>y. \<not> isspace y) (a' @ 32 # b))"
    using x by (simp only: split_ws.simps if_False)
  also have "\<dots> = (x # a') # split_ws (32 # b)"
    by (simp only: tw dw)
  also have "\<dots> = [x # a', b]"
    using split_ws_single[OF assms(2)] by simp
  finally show ?thesis by (simp add: a)
qed

lemma strip_word_dot:
  assumes "single_word w"
  shows "strip (w @ [46, 32]) = w @ [46]"
proof -
  from assms have "w \<noteq> []" and "\<not> isspace (hd w)"
    by (auto simp: single_word_def)
  then have "dropWhile isspace (w @ [46, 32]) = w @ [46, 32]"
    by (cases w) simp_all
  then show ?thesis by (simp add: strip_def)
qed

lemma single_word_dot: "single_word w \<Longrightarrow> single_word (w @ [46])"
  by (simp add: single_word_def)

lemma strip_single_word: "single_word w \<Longrightarrow> strip w = w"
  by (simp add: single_word_def strip_no_space)

section \<open>The chunker: the words of the chunks\<close>

lemma split_ws_space_mid:
  "isspace c \<Longrightarrow> split_ws (a @ c # b) = split_ws a @ split_ws b"
proof (induction a rule: split_ws.induct)
  case 1
  then show ?case by simp
next
  case (2 x xs)
  show ?case
  proof (cases "isspace x")
    case True
    with "2.IH"(1) "2.prems" show ?thesis by simp
  next
    case False
    from "2.prems" have c: "\<not> (\<lambda>y. \<not> isspace y) c" by simp
    have tw: "takeWhile (\<lambda>y. \<not> isspace y) (xs @ c # b) = takeWhile (\<lambda>y. \<not> isspace y) xs"
      using c by (rule takeWhile_tail)
    have dw: "dropWhile (\<lambda>y. \<not> isspace y) (xs @ c # b)
        = dropWhile (\<lambda>y. \<not> isspace y) xs @ c # b"
      using c by (rule dropWhile_append3)
    have "split_ws ((x # xs) @ c # b) =
        (x # takeWhile (\<lambda>y. \<not> isspace y) (xs @ c # b)) #
        split_ws (dropWhile (\<lambda>y. \<not> isspace y) (xs @ c # b))"
      using False by simp
    also have "\<dots> = (x # takeWhile (\<lambda>y. \<not> isspace y) xs) #
        split_ws (dropWhile (\<lambda>y. \<not> isspace y) xs @ c # b)"
      by (simp only: tw dw)
    also have "\<dots> = (x # takeWhile (\<lambda>y. \<not> isspace y) xs) #
        split_ws (dropWhile (\<lambda>y. \<not> isspace y) xs) @ split_ws b"
      using "2.IH"(2)[OF False "2.prems"] by simp
    also have "\<dots> = split_ws (x # xs) @ split_ws b"
      using False by simp
    finally show ?thesis .
  qed
qed

lemma split_ws_trailing:
  "\<forall>x\<in>set t. isspace x \<Longrightarrow> split_ws (a @ t) = split_ws a"
proof (induction t arbitrary: a)
  case Nil
  show ?case by simp
next
  case (Cons c t)
  then have "split_ws (a @ c # t) = split_ws a @ split_ws t"
    by (simp add: split_ws_space_mid)
  moreover from Cons.prems have "split_ws t = []"
    by (simp add: split_ws_all_space)
  ultimately show ?case by simp
qed

lemma split_ws_leading: "split_ws (dropWhile isspace s) = split_ws s"
  by (induction s) simp_all

lemma split_ws_strip: "split_ws (strip s) = split_ws s"
proof -
  let ?d = "dropWhile isspace s"
  have "?d = rev (dropWhile isspace (rev ?d)) @ rev (takeWhile isspace (rev ?d))"
    using takeWhile_dropWhile_id[of isspace "rev ?d"]
    by (metis rev_append rev_rev_ident)
  moreover have "\<forall>x\<in>set (rev (takeWhile isspace (rev ?d))). isspace x"
    by (auto dest: set_takeWhileD)
  ultimately have "split_ws ?d = split_ws (rev (dropWhile isspace (rev ?d)))"
    using split_ws_trailing by metis
  then show ?thesis by (simp add: strip_def split_ws_leading)
qed

lemma split_ws_after_space:
  assumes "a = [] \<or> isspace (last a)"
  shows "split_ws (a @ b) = split_ws a @ split_ws b"
proof (cases a rule: rev_cases)
  case Nil
  then show ?thesis by simp
next
  case (snoc a' c)
  with assms have c: "isspace c" by simp
  then have "split_ws (a' @ c # b) = split_ws a' @ split_ws b"
    and "split_ws (a' @ c # []) = split_ws a' @ split_ws []"
    by (rule split_ws_space_mid)+
  with snoc show ?thesis by simp
qed

lemma split_ws_snoc_after_space:
  assumes "\<not> isspace x" and "s = [] \<or> isspace (last s)"
  shows "split_ws (s @ [x]) = split_ws s @ [[x]]"
  using split_ws_after_space[OF assms(2), of "[x]"] assms(1) by simp

lemma word_suffix:
  assumes "s \<noteq> []" and "\<not> isspace (last s)"
  obtains a w where "s = a @ w" and "single_word w" and "a = [] \<or> isspace (last a)"
proof -
  let ?P = "\<lambda>y. \<not> isspace y"
  let ?w = "rev (takeWhile ?P (rev s))"
  let ?a = "rev (dropWhile ?P (rev s))"
  have s: "s = ?a @ ?w"
    using takeWhile_dropWhile_id[of ?P "rev s"] by (metis rev_append rev_rev_ident)
  from assms have "?P (hd (rev s))" and "rev s \<noteq> []"
    by (simp_all add: hd_rev)
  then have "takeWhile ?P (rev s) \<noteq> []"
    by (cases "rev s") simp_all
  moreover have "\<forall>x\<in>set ?w. \<not> isspace x"
    by (auto dest: set_takeWhileD)
  ultimately have w: "single_word ?w"
    by (simp add: single_word_def)
  have a: "?a = [] \<or> isspace (last ?a)"
  proof (cases "dropWhile ?P (rev s) = []")
    case True
    then show ?thesis by simp
  next
    case False
    from hd_dropWhile[OF False] have "isspace (hd (dropWhile ?P (rev s)))" by simp
    with False show ?thesis by (simp add: last_rev)
  qed
  from s w a show ?thesis by (rule that)
qed

lemma dot_last_snoc: "dot_last (ws @ [w]) = ws @ [w @ [46]]"
  by (simp add: dot_last_def)

lemma dot_last_append: "vs \<noteq> [] \<Longrightarrow> dot_last (ws @ vs) = ws @ dot_last vs"
  by (simp add: dot_last_def butlast_append)

lemma split_ws_dot_after_word:
  assumes "s \<noteq> []" and "\<not> isspace (last s)"
  shows "split_ws s \<noteq> [] \<and> split_ws (s @ [46]) = dot_last (split_ws s)"
proof -
  from assms obtain a w where s: "s = a @ w" and w: "single_word w"
    and a: "a = [] \<or> isspace (last a)"
    by (rule word_suffix)
  from w have wd: "single_word (w @ [46])" by (rule single_word_dot)
  have 1: "split_ws s = split_ws a @ [w]"
    using split_ws_after_space[OF a, of w] split_ws_single[OF w] by (simp add: s)
  have 2: "split_ws (s @ [46]) = split_ws a @ [w @ [46]]"
    using split_ws_after_space[OF a, of "w @ [46]"] split_ws_single[OF wd] by (simp add: s)
  from 1 2 show ?thesis by (simp add: dot_last_snoc)
qed

lemma split_ws_dot_space: "split_ws (s @ [46, 32]) = split_ws (s @ [46])"
  using split_ws_trailing[of "[32]" "s @ [46]"] by simp

lemma split_ws_join_chunks: "split_ws (join_chunks cs) = concat (map split_ws cs)"
proof (induction cs)
  case Nil
  show ?case by (simp add: join_chunks_def)
next
  case (Cons c cs)
  have "split_ws (c @ 32 # join_chunks cs) = split_ws c @ split_ws (join_chunks cs)"
    by (rule split_ws_space_mid) simp
  with Cons show ?case by (simp add: join_chunks_def)
qed

subsection \<open>Lists of words that agree up to full stops\<close>

lemma same_words_refl: "same_words d ws ws"
  by (induction ws) (auto intro: same_words.intros)

lemma same_words_append:
  "same_words d ws vs \<Longrightarrow> same_words d ws' vs' \<Longrightarrow> same_words d (ws @ ws') (vs @ vs')"
  by (induction rule: same_words.induct) (auto intro: same_words.intros)

lemma same_words_concat:
  "\<forall>s\<in>set ss. same_words d (f s) (g s) \<Longrightarrow>
   same_words d (concat (map f ss)) (concat (map g ss))"
  by (induction ss) (auto intro: same_words.intros same_words_append)

lemma same_words_member:
  "same_words d ws vs \<Longrightarrow> v \<in> set vs \<Longrightarrow> \<exists>t\<in>set ws. v = t \<or> v = t @ [46]"
  by (induction rule: same_words.induct) auto

lemma same_words_dot_last:
  assumes "ws \<noteq> []"
  shows "same_words d (ws @ [[46]]) (dot_last ws)"
proof -
  from assms obtain us u where ws: "ws = us @ [u]"
    by (cases ws rule: rev_cases) auto
  have "same_words d [u, [46]] [u @ [46]]"
    by (intro same_words.intros)
  with same_words_refl[of d us] have "same_words d (us @ [u, [46]]) (us @ [u @ [46]])"
    by (rule same_words_append)
  then show ?thesis by (simp add: ws dot_last_snoc)
qed

text \<open>The words of a piece with its full stop, against the words with the stop attached.\<close>

lemma same_words_piece:
  assumes "split_ws s \<noteq> []"
  shows "same_words d (split_ws (s @ [46, 32])) (dot_last (split_ws s))"
proof (cases "s = [] \<or> isspace (last s)")
  case True
  with split_ws_snoc_after_space[of 46 s]
  have "split_ws (s @ [46, 32]) = split_ws s @ [[46]]"
    by (simp add: split_ws_dot_space)
  with same_words_dot_last[OF assms, of d] show ?thesis by simp
next
  case False
  then have "split_ws (s @ [46]) = dot_last (split_ws s)"
    using split_ws_dot_after_word[of s] by simp
  then show ?thesis by (simp add: split_ws_dot_space same_words_refl)
qed

lemma same_words_blank_piece:
  assumes "split_ws s = []"
  shows "same_words True (split_ws (s @ [46, 32])) []"
proof -
  have "s = [] \<or> isspace (last s)"
  proof (rule ccontr)
    assume "\<not> (s = [] \<or> isspace (last s))"
    then have "split_ws s \<noteq> []" using split_ws_dot_after_word[of s] by simp
    with assms show False by simp
  qed
  with split_ws_snoc_after_space[of 46 s] assms
  have "split_ws (s @ [46, 32]) = [[46]]"
    by (simp add: split_ws_dot_space)
  then show ?thesis by (auto intro: same_words.intros)
qed

lemma single_word_ends: "single_word w \<Longrightarrow> ends_word w"
  by (cases w rule: rev_cases) (simp_all add: single_word_def ends_word_def)

lemma pack_word_words:
  assumes w: "single_word w"
  shows "words_carried (pack_word n (out, t) w) = words_carried (out, t) @ [w] \<and>
         ends_word (snd (pack_word n (out, t) w))"
proof (cases "int (length (t @ [32] @ w)) \<le> n")
  case True
  show ?thesis
  proof (cases "t = []")
    case t: True
    with True have "pack_word n (out, t) w = (out, w)"
      by (simp add: pack_word_def)
    with t w show ?thesis
      by (simp add: words_carried_def split_ws_single single_word_ends)
  next
    case t: False
    with True have "pack_word n (out, t) w = (out, t @ 32 # w)"
      by (simp add: pack_word_def)
    moreover have "split_ws (t @ 32 # w) = split_ws t @ split_ws w"
      by (rule split_ws_space_mid) simp
    moreover from w have "ends_word (t @ 32 # w)"
      using single_word_ends[OF w] by (simp add: ends_word_def)
    ultimately show ?thesis using w
      by (simp add: words_carried_def split_ws_single)
  qed
next
  case False
  then have "pack_word n (out, t) w = (if t \<noteq> [] then out @ [strip t] else out, w)"
    by (simp add: pack_word_def)
  with w show ?thesis
    by (simp add: words_carried_def split_ws_single split_ws_strip single_word_ends)
qed

lemma pack_words_words:
  assumes "\<forall>w\<in>set ws. single_word w"
  shows "words_carried (foldl (pack_word n) st ws) = words_carried st @ ws \<and>
         (ws \<noteq> [] \<longrightarrow> ends_word (snd (foldl (pack_word n) st ws)))"
  using assms
proof (induction ws arbitrary: st rule: rev_induct)
  case Nil
  show ?case by simp
next
  case (snoc w ws)
  obtain out t where r: "foldl (pack_word n) st ws = (out, t)"
    by (cases "foldl (pack_word n) st ws")
  from snoc.prems have w: "single_word w" and ws: "\<forall>w\<in>set ws. single_word w"
    by simp_all
  from snoc.IH[OF ws, of st] r have "words_carried (out, t) = words_carried st @ ws"
    by simp
  with pack_word_words[OF w, of n out t] r show ?case by simp
qed

lemma split_ws_words_single: "\<forall>w\<in>set (split_ws s). single_word w"
  using split_ws_word[of _ s] by (auto simp: single_word_def)

text \<open>What the word loop makes of a piece, when it starts without a pending chunk.\<close>

lemma pack_piece:
  assumes "foldl (pack_word n) (chunks, []) (split_ws s) = (chunks', t)"
  shows "concat (map split_ws chunks') @ split_ws t = concat (map split_ws chunks) @ split_ws s"
    and "split_ws s \<noteq> [] \<Longrightarrow> ends_word t"
    and "split_ws s = [] \<Longrightarrow> chunks' = chunks \<and> t = []"
proof -
  have "\<forall>w\<in>set (split_ws s). single_word w"
    by (rule split_ws_words_single)
  from pack_words_words[OF this, of n "(chunks, [])"] assms
  show "concat (map split_ws chunks') @ split_ws t = concat (map split_ws chunks) @ split_ws s"
    and "split_ws s \<noteq> [] \<Longrightarrow> ends_word t"
    by (simp_all add: words_carried_def)
  show "split_ws s = [] \<Longrightarrow> chunks' = chunks \<and> t = []"
    using assms by simp
qed

lemma add_sentence_words:
  assumes cur: "ends_space (snd st)"
    and d: "\<not> d \<Longrightarrow> snd st = [] \<Longrightarrow> n < int (length s) \<Longrightarrow> split_ws s \<noteq> []"
  shows "\<exists>X. words_carried (add_sentence n st s) = words_carried st @ X \<and>
             same_words d (split_ws (s @ [46, 32])) X \<and>
             ends_space (snd (add_sentence n st s)) \<and>
             (\<not> d \<longrightarrow> snd (add_sentence n st s) \<noteq> [])"
proof -
  obtain chunks current where st: "st = (chunks, current)" by (cases st)
  from cur st have c: "current = [] \<or> isspace (last current)"
    by (simp add: ends_space_def)
  let ?test = "if current \<noteq> [] then current @ s @ [46, 32] else s @ [46, 32]"
  show ?thesis
  proof (cases "int (length ?test) \<le> n")
    case True
    then have "add_sentence n st s = (chunks, current @ s @ [46, 32])"
      by (auto simp: add_sentence_def st Let_def)
    moreover have "split_ws (current @ s @ [46, 32]) = split_ws current @ split_ws (s @ [46, 32])"
      using c by (rule split_ws_after_space)
    ultimately have "words_carried (add_sentence n st s) = words_carried st @ split_ws (s @ [46, 32])"
      and "ends_space (snd (add_sentence n st s))" and "snd (add_sentence n st s) \<noteq> []"
      by (simp_all add: words_carried_def st ends_space_def)
    with same_words_refl show ?thesis by blast
  next
    case False
    show ?thesis
    proof (cases "current = []")
      case ne: False
      with False have "add_sentence n st s = (chunks @ [strip current], s @ [46, 32])"
        by (simp add: add_sentence_def st Let_def)
      then have "words_carried (add_sentence n st s) = words_carried st @ split_ws (s @ [46, 32])"
        and "ends_space (snd (add_sentence n st s))" and "snd (add_sentence n st s) \<noteq> []"
        by (simp_all add: words_carried_def st split_ws_strip ends_space_def)
      with same_words_refl show ?thesis by blast
    next
      case e: True
      show ?thesis
      proof (cases "n < int (length s)")
        case short: False
        with False e have "add_sentence n st s = (chunks, s @ [46, 32])"
          by (simp add: add_sentence_def st Let_def)
        then have "words_carried (add_sentence n st s) = words_carried st @ split_ws (s @ [46, 32])"
          and "ends_space (snd (add_sentence n st s))" and "snd (add_sentence n st s) \<noteq> []"
          using e by (simp_all add: words_carried_def st ends_space_def)
        with same_words_refl show ?thesis by blast
      next
        case long: True
        obtain chunks' t where r: "foldl (pack_word n) (chunks, []) (split_ws s) = (chunks', t)"
          by (cases "foldl (pack_word n) (chunks, []) (split_ws s)")
        from False e long r
        have step: "add_sentence n st s = (chunks', if t \<noteq> [] then t @ [46, 32] else [])"
          by (simp add: add_sentence_def st Let_def)
        then have sp: "ends_space (snd (add_sentence n st s))"
          by (simp add: ends_space_def)
        show ?thesis
        proof (cases "split_ws s = []")
          case blank: True
          with d long e st have d: d by auto
          from pack_piece(3)[OF r blank] step e
          have "words_carried (add_sentence n st s) = words_carried st @ []"
            by (simp add: words_carried_def st)
          moreover have "same_words d (split_ws (s @ [46, 32])) []"
            using same_words_blank_piece[OF blank] d by simp
          ultimately show ?thesis using sp d by blast
        next
          case words: False
          from pack_piece(2)[OF r words] have t: "t \<noteq> []" "\<not> isspace (last t)"
            by (simp_all add: ends_word_def)
          from split_ws_dot_after_word[OF t]
          have tw: "split_ws t \<noteq> []" and td: "split_ws (t @ [46, 32]) = dot_last (split_ws t)"
            by (simp_all add: split_ws_dot_space)
          have "concat (map split_ws chunks') @ dot_last (split_ws t)
              = dot_last (concat (map split_ws chunks') @ split_ws t)"
            using tw by (simp add: dot_last_append)
          also have "\<dots> = dot_last (concat (map split_ws chunks) @ split_ws s)"
            by (simp only: pack_piece(1)[OF r])
          also have "\<dots> = concat (map split_ws chunks) @ dot_last (split_ws s)"
            using words by (simp add: dot_last_append)
          finally have "words_carried (add_sentence n st s)
              = words_carried st @ dot_last (split_ws s)"
            using step t e by (simp add: words_carried_def st td)
          moreover from step t have "snd (add_sentence n st s) \<noteq> []" by simp
          ultimately show ?thesis using same_words_piece[OF words, of d] sp by blast
        qed
      qed
    qed
  qed
qed

text \<open>
  Only a piece met without a pending chunk can be left out, and after a piece that was
  not left out a chunk is always pending: so only the first piece matters.
\<close>

lemma add_sentences_words:
  assumes "ends_space (snd st)"
    and "\<And>s rest. \<not> d \<Longrightarrow> snd st = [] \<Longrightarrow> ss = s # rest \<Longrightarrow> n < int (length s) \<Longrightarrow>
           split_ws s \<noteq> []"
  shows "\<exists>Y. words_carried (foldl (add_sentence n) st ss) = words_carried st @ Y \<and>
             same_words d (concat (map (\<lambda>s. split_ws (s @ [46, 32])) ss)) Y"
  using assms
proof (induction ss arbitrary: st)
  case Nil
  show ?case by (auto intro: same_words.intros)
next
  case (Cons s ss)
  have "\<not> d \<Longrightarrow> snd st = [] \<Longrightarrow> n < int (length s) \<Longrightarrow> split_ws s \<noteq> []"
    using Cons.prems(2)[of s ss] by simp
  from add_sentence_words[OF Cons.prems(1) this]
  obtain X where X: "words_carried (add_sentence n st s) = words_carried st @ X"
    and sx: "same_words d (split_ws (s @ [46, 32])) X"
    and sp: "ends_space (snd (add_sentence n st s))"
    and pending: "\<not> d \<longrightarrow> snd (add_sentence n st s) \<noteq> []"
    by blast
  have "\<exists>Y. words_carried (foldl (add_sentence n) (add_sentence n st s) ss)
        = words_carried (add_sentence n st s) @ Y \<and>
      same_words d (concat (map (\<lambda>s. split_ws (s @ [46, 32])) ss)) Y"
    using sp pending by (intro Cons.IH) simp_all
  then obtain Y where Y: "words_carried (foldl (add_sentence n) (add_sentence n st s) ss)
      = words_carried (add_sentence n st s) @ Y"
    and sy: "same_words d (concat (map (\<lambda>s. split_ws (s @ [46, 32])) ss)) Y"
    by blast
  from X Y have "words_carried (foldl (add_sentence n) st (s # ss)) = words_carried st @ (X @ Y)"
    by simp
  moreover from sx sy
  have "same_words d (concat (map (\<lambda>s. split_ws (s @ [46, 32])) (s # ss))) (X @ Y)"
    by (simp add: same_words_append)
  ultimately show ?case by blast
qed

lemma split_dot_space_pieces:
  "concat (map (\<lambda>s. s @ [46, 32]) (split_dot_space t)) = t @ [46, 32]"
proof (induction t rule: split_dot_space.induct)
  case (1 c d cs)
  show ?case
  proof (cases "c = 46 \<and> d = 32")
    case True
    with 1(1) show ?thesis by simp
  next
    case False
    obtain p ps where p: "split_dot_space (d # cs) = p # ps"
      using split_dot_space_not_Nil[of "d # cs"] by (cases "split_dot_space (d # cs)") auto
    from 1(2)[OF False] have "p @ [46, 32] @ concat (map (\<lambda>s. s @ [46, 32]) ps) = (d # cs) @ [46, 32]"
      by (simp add: p)
    moreover have "split_dot_space (c # d # cs) = (c # p) # ps"
      using False p by simp
    ultimately show ?thesis by simp
  qed
qed simp_all

lemma split_ws_pieces:
  "split_ws (concat (map (\<lambda>s. s @ [46, 32]) ss)) = concat (map (\<lambda>s. split_ws (s @ [46, 32])) ss)"
proof (induction ss)
  case Nil
  show ?case by simp
next
  case (Cons s ss)
  have "split_ws ((s @ [46, 32]) @ concat (map (\<lambda>s. s @ [46, 32]) ss))
      = split_ws (s @ [46, 32]) @ split_ws (concat (map (\<lambda>s. s @ [46, 32]) ss))"
    by (rule split_ws_after_space) simp
  with Cons show ?case by simp
qed

lemma text_words:
  "split_ws (text @ [46, 32]) = concat (map (\<lambda>s. split_ws (s @ [46, 32])) (split_dot_space text))"
  using split_ws_pieces[of "split_dot_space text"] by (simp only: split_dot_space_pieces)

lemma sentence_chunks_words:
  assumes "\<And>s rest. \<not> d \<Longrightarrow> split_dot_space text = s # rest \<Longrightarrow> n < int (length s) \<Longrightarrow>
             split_ws s \<noteq> []"
  shows "same_words d (split_ws (text @ [46, 32])) (concat (map split_ws (sentence_chunks text n)))"
proof -
  obtain chunks cur where r: "foldl (add_sentence n) ([], []) (split_dot_space text) = (chunks, cur)"
    by (cases "foldl (add_sentence n) ([], []) (split_dot_space text)")
  have "\<exists>Y. words_carried (foldl (add_sentence n) ([], []) (split_dot_space text))
        = words_carried ([], []) @ Y \<and>
      same_words d (concat (map (\<lambda>s. split_ws (s @ [46, 32])) (split_dot_space text))) Y"
    using assms by (intro add_sentences_words) (simp_all add: ends_space_def)
  then obtain Y where "words_carried (foldl (add_sentence n) ([], []) (split_dot_space text))
      = words_carried ([], []) @ Y"
    and "same_words d (concat (map (\<lambda>s. split_ws (s @ [46, 32])) (split_dot_space text))) Y"
    by blast
  then have Y: "words_carried (chunks, cur) = Y"
    and s: "same_words d (split_ws (text @ [46, 32])) Y"
    by (simp_all only: r text_words[symmetric]) (simp add: words_carried_def)
  have "concat (map split_ws (sentence_chunks text n)) = words_carried (chunks, cur)"
    by (cases "cur = []") (simp_all add: sentence_chunks_def r words_carried_def split_ws_strip)
  with Y s show ?thesis by simp
qed

lemma recheck_chunk_words:
  "concat (map split_ws (recheck_chunk n fc chunk)) = concat (map split_ws fc) @ split_ws chunk"
proof -
  obtain fc' t where r: "foldl (pack_word n) (fc, []) (split_ws chunk) = (fc', t)"
    by (cases "foldl (pack_word n) (fc, []) (split_ws chunk)")
  from pack_piece(1)[OF r] show ?thesis
    by (cases "t = []") (simp_all add: recheck_chunk_def r split_ws_strip)
qed

lemma recheck_all_words:
  "concat (map split_ws (foldl (recheck_chunk n) fc chunks))
     = concat (map split_ws fc) @ concat (map split_ws chunks)"
  by (induction chunks arbitrary: fc) (simp_all add: recheck_chunk_words)

lemma chunks_words:
  assumes "\<And>s rest. \<not> d \<Longrightarrow> split_dot_space text = s # rest \<Longrightarrow> n < int (length s) \<Longrightarrow>
             split_ws s \<noteq> []"
  shows "same_words d (split_ws (text @ [46, 32]))
           (concat (map split_ws (split_text_into_chunks text n)))"
  using sentence_chunks_words[of d "text" n] assms
  by (simp add: split_text_into_chunks_def recheck_all_words)

lemma chunks_within_or_word:
  "\<forall>c\<in>set (split_text_into_chunks text n). int (length c) \<le> n \<or> single_word c"
  using recheck_all_ok[of "[]" n "sentence_chunks text n"]
  by (simp add: split_text_into_chunks_def chunk_ok_def)

lemma has_word:
  assumes "\<exists>x\<in>set s. \<not> isspace x"
  shows "split_ws s \<noteq> []"
proof
  assume "split_ws s = []"
  with concat_split_ws[of s] have "filter (\<lambda>x. \<not> isspace x) s = []" by simp
  with assms show False by (simp add: filter_empty_conv)
qed

lemma same_words_concat_eq: "same_words False ws vs \<Longrightarrow> concat ws = concat vs"
  by (induction rule: same_words.induct) auto

lemma nonspace_concat: "nonspace (concat cs) = concat (concat (map split_ws cs))"
  by (induction cs) (simp_all add: nonspace_words)

section \<open>The chunker: the claims\<close>

lemmas chunker_defs = lit_def split_text_into_chunks_def sentence_chunks_def add_sentence_def
  recheck_chunk_def pack_word_def strip_def isspace_def

text \<open>
  Claim C1, as stated, fails: the chunker puts a full stop after every sentence, also
  after the last one, so the chunk for the text \<open>abc\<close> is \<open>abc.\<close>, which is longer
  than the limit 3 although the only word of the text fits.
\<close>

theorem chunk_exceeds_limit_though_word_fits:
  "split_text_into_chunks (lit ''abc'') 3 = [lit ''abc.''] \<and>
   split_ws (lit ''abc'') = [lit ''abc''] \<and>
   int (length (lit ''abc'')) \<le> 3 \<and>
   \<not> int (length (lit ''abc.'')) \<le> 3"
  by (simp add: chunker_defs)

text \<open>
  Claim C1, amended. The chunker reads the text as if it ended in a full stop and a
  space. For every text and every chunk size, each chunk that it returns is at most
  \<open>max_chunk_size\<close> characters long, or it is one whole word of the text read that
  way (a word as \<open>split()\<close> gives it, with the full stop of its sentence when that
  follows at once), either as it stands or with a full stop attached. And no word is cut:
  the words of the chunks, in order, are the words of the text read that way, each whole,
  except that a word that is a full stop alone may be attached to the word before it or
  left out.
\<close>

theorem oversized_chunk_is_whole_word:
  "(\<forall>c\<in>set (split_text_into_chunks text max_chunk_size).
      int (length c) \<le> max_chunk_size \<or>
      (\<exists>t\<in>set (split_ws (text @ [46, 32])). c = t \<or> c = t @ [46])) \<and>
   same_words True (split_ws (text @ [46, 32]))
     (split_ws (join_chunks (split_text_into_chunks text max_chunk_size)))"
proof
  have words: "same_words True (split_ws (text @ [46, 32]))
      (concat (map split_ws (split_text_into_chunks text max_chunk_size)))"
    by (rule chunks_words) simp
  then show "same_words True (split_ws (text @ [46, 32]))
      (split_ws (join_chunks (split_text_into_chunks text max_chunk_size)))"
    by (simp add: split_ws_join_chunks)
  show "\<forall>c\<in>set (split_text_into_chunks text max_chunk_size).
      int (length c) \<le> max_chunk_size \<or>
      (\<exists>t\<in>set (split_ws (text @ [46, 32])). c = t \<or> c = t @ [46])"
  proof
    fix c assume c: "c \<in> set (split_text_into_chunks text max_chunk_size)"
    show "int (length c) \<le> max_chunk_size \<or>
        (\<exists>t\<in>set (split_ws (text @ [46, 32])). c = t \<or> c = t @ [46])"
    proof (cases "int (length c) \<le> max_chunk_size")
      case True
      then show ?thesis by simp
    next
      case False
      with chunks_within_or_word c have "single_word c" by blast
      then have "split_ws c = [c]" by (rule split_ws_single)
      with c have "c \<in> set (concat (map split_ws (split_text_into_chunks text max_chunk_size)))"
        by force
      with words show ?thesis by (blast dest: same_words_member)
    qed
  qed
qed

text \<open>
  An example with limit 6: two sentences are re-packed within the limit, and the
  nine-letter word \<open>eeeeeeeee\<close> comes out whole as a chunk of its own; the words of
  the chunks are those of the text.
\<close>

theorem oversized_chunk_is_whole_word_witness:
  "split_text_into_chunks (lit ''aa  bb. cc dd. eeeeeeeee f'') 6 =
     [lit ''aa bb.'', lit ''cc dd.'', lit ''eeeeeeeee'', lit ''f.''] \<and>
   split_ws (lit ''aa  bb. cc dd. eeeeeeeee f'' @ [46, 32]) =
     [lit ''aa'', lit ''bb.'', lit ''cc'', lit ''dd.'', lit ''eeeeeeeee'', lit ''f.''] \<and>
   \<not> int (length (lit ''eeeeeeeee'')) \<le> 6 \<and>
   (\<exists>t\<in>set (split_ws (lit ''aa  bb. cc dd. eeeeeeeee f'' @ [46, 32])).
      lit ''eeeeeeeee'' = t \<or> lit ''eeeeeeeee'' = t @ [46]) \<and>
   same_words True
     [lit ''aa'', lit ''bb.'', lit ''cc'', lit ''dd.'', lit ''eeeeeeeee'', lit ''f.'']
     [lit ''aa'', lit ''bb.'', lit ''cc'', lit ''dd.'', lit ''eeeeeeeee'', lit ''f.'']"
proof -
  have eq: "split_text_into_chunks (lit ''aa  bb. cc dd. eeeeeeeee f'') 6 =
      [lit ''aa bb.'', lit ''cc dd.'', lit ''eeeeeeeee'', lit ''f.'']"
    by (simp add: chunker_defs)
  have words: "split_ws (lit ''aa  bb. cc dd. eeeeeeeee f'' @ [46, 32]) =
      [lit ''aa'', lit ''bb.'', lit ''cc'', lit ''dd.'', lit ''eeeeeeeee'', lit ''f.'']"
    by (simp add: lit_def isspace_def)
  have joined: "split_ws (join_chunks
        [lit ''aa bb.'', lit ''cc dd.'', lit ''eeeeeeeee'', lit ''f.'']) =
      [lit ''aa'', lit ''bb.'', lit ''cc'', lit ''dd.'', lit ''eeeeeeeee'', lit ''f.'']"
    by (simp add: join_chunks_def lit_def isspace_def)
  have long: "\<not> int (length (lit ''eeeeeeeee'')) \<le> 6"
    by (simp add: lit_def)
  have member: "lit ''eeeeeeeee'' \<in>
      set (split_text_into_chunks (lit ''aa  bb. cc dd. eeeeeeeee f'') 6)"
    by (simp add: eq)
  note inst = oversized_chunk_is_whole_word[of "lit ''aa  bb. cc dd. eeeeeeeee f''" 6]
  from inst member long
  have 1: "\<exists>t\<in>set (split_ws (lit ''aa  bb. cc dd. eeeeeeeee f'' @ [46, 32])).
      lit ''eeeeeeeee'' = t \<or> lit ''eeeeeeeee'' = t @ [46]"
    by blast
  from inst have 2: "same_words True
      [lit ''aa'', lit ''bb.'', lit ''cc'', lit ''dd.'', lit ''eeeeeeeee'', lit ''f.'']
      [lit ''aa'', lit ''bb.'', lit ''cc'', lit ''dd.'', lit ''eeeeeeeee'', lit ''f.'']"
    by (simp add: eq words joined)
  from eq words long 1 2 show ?thesis by blast
qed

text \<open>
  Claim C2, as stated, fails: a piece between two \<open>'. '\<close> separators that is longer
  than the limit and holds nothing but whitespace is dropped together with its separator,
  so the full stop of the input below appears in no chunk.
\<close>

theorem chunks_lose_full_stop:
  "46 \<in> set (lit ''     .      '') \<and>
   concat (split_text_into_chunks (lit ''     .      '') 3) = []"
  by (simp add: chunker_defs)

text \<open>
  Claim C2, amended. Let the first piece of the text, up to its first \<open>'. '\<close>
  separator, not be both longer than \<open>max_chunk_size\<close> and made of whitespace only.
  Then the words of the chunks joined with a space after each are the words of the text
  followed by a full stop and a space: every word is kept whole and in its place, except
  that a word that is a full stop alone may be attached to the word before it. And the
  non-whitespace characters of the chunks, in order, are exactly those of the text,
  followed by the one full stop that the chunker puts after the last sentence.
\<close>

theorem chunks_keep_words:
  assumes "\<forall>s rest. split_dot_space text = s # rest \<longrightarrow>
             max_chunk_size < int (length s) \<longrightarrow> (\<exists>x\<in>set s. \<not> isspace x)"
  shows "same_words False (split_ws (text @ [46, 32]))
           (split_ws (join_chunks (split_text_into_chunks text max_chunk_size))) \<and>
         nonspace (concat (split_text_into_chunks text max_chunk_size)) = nonspace text @ [46]"
proof -
  have words: "same_words False (split_ws (text @ [46, 32]))
      (concat (map split_ws (split_text_into_chunks text max_chunk_size)))"
    using assms by (intro chunks_words has_word) blast
  then have "concat (split_ws (text @ [46, 32]))
      = concat (concat (map split_ws (split_text_into_chunks text max_chunk_size)))"
    by (rule same_words_concat_eq)
  then have "nonspace (concat (split_text_into_chunks text max_chunk_size)) = nonspace text @ [46]"
    by (simp add: nonspace_concat nonspace_words)
  with words show ?thesis by (simp add: split_ws_join_chunks)
qed

text \<open>
  Two examples with limit 3. In the first the full stop that stands alone in the text is
  attached to the word before it. In the second a piece of five spaces is longer than the
  limit, but it is not the first piece, and its full stop is kept.
\<close>

theorem chunks_keep_words_witness:
  "split_text_into_chunks (lit ''aaaa . b'') 3 = [lit ''aaaa.'', lit ''b.''] \<and>
   split_ws (lit ''aaaa . b'' @ [46, 32]) = [lit ''aaaa'', lit ''.'', lit ''b.''] \<and>
   same_words False [lit ''aaaa'', lit ''.'', lit ''b.''] [lit ''aaaa.'', lit ''b.''] \<and>
   nonspace (lit ''aaaa.'' @ lit ''b.'') = nonspace (lit ''aaaa . b'') @ [46] \<and>
   split_dot_space (lit ''a.      . b'') = [lit ''a'', lit ''     '', lit ''b''] \<and>
   split_text_into_chunks (lit ''a.      . b'') 3 = [lit ''a.'', lit ''.'', lit ''b.''] \<and>
   same_words False (split_ws (lit ''a.      . b'' @ [46, 32])) [lit ''a.'', lit ''.'', lit ''b.'']"
proof -
  have pieces: "split_dot_space (lit ''aaaa . b'') = [lit ''aaaa '', lit ''b'']"
    by (simp add: lit_def)
  have h: "\<forall>s rest. split_dot_space (lit ''aaaa . b'') = s # rest \<longrightarrow>
      3 < int (length s) \<longrightarrow> (\<exists>x\<in>set s. \<not> isspace x)"
    unfolding pieces by (simp add: lit_def isspace_def)
  have eq: "split_text_into_chunks (lit ''aaaa . b'') 3 = [lit ''aaaa.'', lit ''b.'']"
    by (simp add: chunker_defs)
  have words: "split_ws (lit ''aaaa . b'' @ [46, 32]) = [lit ''aaaa'', lit ''.'', lit ''b.'']"
    by (simp add: lit_def isspace_def)
  have joined: "split_ws (join_chunks [lit ''aaaa.'', lit ''b.'']) = [lit ''aaaa.'', lit ''b.'']"
    by (simp add: join_chunks_def lit_def isspace_def)
  from chunks_keep_words[OF h]
  have 1: "same_words False [lit ''aaaa'', lit ''.'', lit ''b.''] [lit ''aaaa.'', lit ''b.''] \<and>
      nonspace (lit ''aaaa.'' @ lit ''b.'') = nonspace (lit ''aaaa . b'') @ [46]"
    by (simp add: eq words joined)
  have pieces2: "split_dot_space (lit ''a.      . b'') = [lit ''a'', lit ''     '', lit ''b'']"
    by (simp add: lit_def)
  have h2: "\<forall>s rest. split_dot_space (lit ''a.      . b'') = s # rest \<longrightarrow>
      3 < int (length s) \<longrightarrow> (\<exists>x\<in>set s. \<not> isspace x)"
    unfolding pieces2 by (simp add: lit_def isspace_def)
  have eq2: "split_text_into_chunks (lit ''a.      . b'') 3 = [lit ''a.'', lit ''.'', lit ''b.'']"
    by (simp add: chunker_defs)
  have joined2: "split_ws (join_chunks [lit ''a.'', lit ''.'', lit ''b.''])
      = [lit ''a.'', lit ''.'', lit ''b.'']"
    by (simp add: join_chunks_def lit_def isspace_def)
  from chunks_keep_words[OF h2]
  have 2: "same_words False (split_ws (lit ''a.      . b'' @ [46, 32]))
      [lit ''a.'', lit ''.'', lit ''b.'']"
    by (simp add: eq2 joined2)
  from eq words 1 pieces2 eq2 2 show ?thesis by blast
qed

text \<open>
  Claim C9, as stated, fails: the empty text is one empty sentence, which gets its full
  stop like any other, so the result is not the empty sequence.
\<close>

theorem empty_text_not_empty_chunks:
  "split_text_into_chunks (lit '''') 4000 \<noteq> []"
  by (simp add: chunker_defs)

text \<open>
  Claim C9, amended. For the empty text and every positive chunk size, the chunker
  returns exactly one chunk, the full stop.
\<close>

theorem empty_text_chunks:
  "0 < max_chunk_size \<Longrightarrow> split_text_into_chunks [] max_chunk_size = [[46]]"
  by (cases "2 \<le> max_chunk_size")
     (simp_all add: split_text_into_chunks_def sentence_chunks_def add_sentence_def
        recheck_chunk_def strip_def)

theorem empty_text_chunks_witness:
  "(0::int) < 1 \<and> split_text_into_chunks [] 1 = [[46]]"
  using empty_text_chunks[of 1] by simp

section \<open>Flattening: the claims\<close>


lemma and_then_Inr: "and_then r f = Inr y \<longleftrightarrow> (\<exists>x. r = Inr x \<and> f x = Inr y)"
  by (cases r) (simp_all add: and_then_def)

lemma document_sent_build:
  "document_sent (store_rfp_in_search sv a c t) = Some doc \<Longrightarrow>
   build_document sv (returned (get_embedding (column_mean sv) (embed sv) c)) a c t = Inr doc"
  by (simp add: store_rfp_in_search_def Let_def split: sum.splits)

lemma build_document_sent:
  "build_document sv (returned (get_embedding (column_mean sv) (embed sv) c)) a c t = Inr doc \<Longrightarrow>
   document_sent (store_rfp_in_search sv a c t) = Some doc"
  by (simp add: store_rfp_in_search_def Let_def split: sum.splits)

lemma get_each_Inr:
  "get_each d ks = Inr vs \<Longrightarrow> \<exists>kvs. d = JObj kvs \<and>
     vs = map (\<lambda>k. case map_of kvs k of Some v \<Rightarrow> v | None \<Rightarrow> JStr []) ks \<or> ks = [] \<and> vs = []"
proof (induction ks arbitrary: vs)
  case Nil
  then show ?case by simp
next
  case (Cons k ks)
  from Cons.prems obtain v vs' where v: "dict_get d k (JStr []) = Inr v"
    and vs': "get_each d ks = Inr vs'" and vs: "vs = v # vs'"
    by (auto simp: and_then_Inr)
  from v obtain kvs where d: "d = JObj kvs"
    and v': "v = (case map_of kvs k of Some v \<Rightarrow> v | None \<Rightarrow> JStr [])"
    by (auto simp: dict_get_def split: json.splits)
  from Cons.IH[OF vs'] d have "vs' = map (\<lambda>k. case map_of kvs k of Some v \<Rightarrow> v | None \<Rightarrow> JStr []) ks"
    by auto
  with d v' vs show ?case by simp
qed

lemma get_each_JObj:
  "get_each (JObj kvs) ks = Inr (map (\<lambda>k. case map_of kvs k of Some v \<Rightarrow> v | None \<Rightarrow> JStr []) ks)"
  by (induction ks) (simp_all add: and_then_def dict_get_def)

lemma sub_field_JObj:
  "map_of a cat = Some (JObj kvs) \<Longrightarrow>
   sub_field a cat = (\<lambda>k. case map_of kvs k of Some v \<Rightarrow> v | None \<Rightarrow> JStr [])"
  by (rule ext) (simp add: sub_field_def)

lemma sub_field_None: "map_of a cat = None \<Longrightarrow> sub_field a cat k = JStr []"
  by (simp add: sub_field_def)

lemma technical_requirements_Inr:
  assumes "technical_requirements a = Inr reqs"
  shows "reqs = filter truthy (map (sub_field a key_requirements) requirement_keys)"
proof (cases "map_of a key_requirements")
  case None
  with assms have "reqs = []" by (simp add: technical_requirements_def)
  moreover have "filter truthy (map (sub_field a key_requirements) requirement_keys) = []"
    using None by (simp add: sub_field_def requirement_keys_def)
  ultimately show ?thesis by simp
next
  case (Some info)
  with assms obtain vs where vs: "get_each info requirement_keys = Inr vs" and r: "reqs = filter truthy vs"
    by (auto simp: technical_requirements_def and_then_Inr)
  from get_each_Inr[OF vs] obtain kvs where "info = JObj kvs"
    and "vs = map (\<lambda>k. case map_of kvs k of Some v \<Rightarrow> v | None \<Rightarrow> JStr []) requirement_keys"
    by (auto simp: requirement_keys_def)
  with Some r show ?thesis by (simp add: sub_field_JObj)
qed

lemma build_document_Inr:
  assumes "build_document sv vec a c t = Inr doc"
  shows "\<exists>ti b d r e. document_title (py_str sv) a t = Inr ti \<and> budget_range_of a = Inr b \<and>
     submission_deadline_of a = Inr d \<and> technical_requirements a = Inr r \<and>
     evaluation_criteria_of a = Inr e \<and> title doc = ti \<and> budget_range doc = b \<and>
     submission_deadline doc = d \<and> requirements doc = Dumps (JArr r) \<and>
     evaluation_criteria doc = Dumps e \<and>
     project_type doc = (case map_of a (lit ''project_type'') of Some v \<Rightarrow> v | None \<Rightarrow> JStr [])"
  using assms unfolding build_document_def and_then_Inr by force

text \<open>
  Claim C4. Whenever a document is handed to the index, its \<open>requirements\<close> field is
  the serialised list of the five sub-fields of category 5 in the order functional,
  non-functional, interface, data, compatibility, an absent sub-field (or an absent
  category) counting as the empty string, with the values Python takes for false (the empty
  ones) filtered out.
\<close>

theorem requirements_flattened:
  assumes "document_sent (store_rfp_in_search sv rfp_analysis rfp_content pdf_title) = Some doc"
  shows "requirements doc =
     Dumps (JArr (filter truthy (map (sub_field rfp_analysis key_requirements)
       [key_functional, key_non_functional, key_interface, key_data, key_compatibility])))"
proof -
  from build_document_Inr[OF document_sent_build[OF assms]]
  obtain r where "technical_requirements rfp_analysis = Inr r" and "requirements doc = Dumps (JArr r)"
    by blast
  with technical_requirements_Inr[of rfp_analysis r] show ?thesis
    by (simp add: requirement_keys_def)
qed

text \<open>
  Claim C10. When the analysis has no top-level key \<open>project_type\<close>, as under the
  prompt's schema, the document's \<open>project_type\<close> is the empty string.
\<close>

theorem project_type_default:
  assumes "map_of rfp_analysis (lit ''project_type'') = None"
    and "document_sent (store_rfp_in_search sv rfp_analysis rfp_content pdf_title) = Some doc"
  shows "project_type doc = JStr []"
  using build_document_Inr[OF document_sent_build[OF assms(2)]] assms(1) by auto


lemma project_overview_Inr:
  assumes "project_overview pstr a = Inr ov"
  shows "ov = strip (format_value pstr (sub_field a key_core_overview key_background_purpose) @ [32] @
                     format_value pstr (sub_field a key_core_overview key_expected_outcome))"
proof (cases "map_of a key_core_overview")
  case None
  with assms have "ov = []" by (simp add: project_overview_def)
  then show ?thesis using None by (simp add: sub_field_None format_value_def strip_def)
next
  case (Some core)
  with assms obtain bg out where bg: "dict_get core key_background_purpose (JStr []) = Inr bg"
    and out: "dict_get core key_expected_outcome (JStr []) = Inr out"
    and ov: "ov = strip (format_value pstr bg @ [32] @ format_value pstr out)"
    by (auto simp: project_overview_def and_then_Inr)
  from bg obtain kvs where core: "core = JObj kvs"
    by (auto simp: dict_get_def split: json.splits)
  from bg out core Some have "bg = sub_field a key_core_overview key_background_purpose"
    and "out = sub_field a key_core_overview key_expected_outcome"
    by (auto simp: dict_get_def sub_field_def)
  with ov show ?thesis by simp
qed

lemma document_title_Inr:
  assumes "document_title pstr a t = Inr ti"
  shows "ti = (let overview =
                 strip (format_value pstr (sub_field a key_core_overview key_background_purpose) @ [32] @
                        format_value pstr (sub_field a key_core_overview key_expected_outcome))
               in if title_given t then the t
                  else if overview \<noteq> [] then take 100 overview else lit ''RFP Document'')"
proof (cases "title_given t")
  case True
  with assms show ?thesis by (simp add: document_title_def Let_def)
next
  case False
  with assms obtain ov where ov: "project_overview pstr a = Inr ov"
    and ti: "ti = (if ov \<noteq> [] then take 100 ov else lit ''RFP Document'')"
    by (auto simp: document_title_def and_then_Inr)
  from project_overview_Inr[OF ov] ti False show ?thesis by (simp add: Let_def)
qed

text \<open>
  Claim C6. The title of a document handed to the index: a title supplied by the caller
  wins when it is present (neither \<open>None\<close> nor empty); otherwise the background and
  outcome fields of category 1, joined by a space and stripped, give the title, cut to 100
  characters, when that string is not empty; otherwise the title is \<open>RFP Document\<close>.
\<close>

theorem title_precedence:
  assumes "document_sent (store_rfp_in_search sv rfp_analysis rfp_content pdf_title) = Some doc"
  shows "let overview =
           strip (format_value (py_str sv)
                    (sub_field rfp_analysis key_core_overview key_background_purpose) @ [32] @
                  format_value (py_str sv)
                    (sub_field rfp_analysis key_core_overview key_expected_outcome))
         in (\<forall>t. pdf_title = Some t \<and> t \<noteq> [] \<longrightarrow> title doc = t) \<and>
            ((pdf_title = None \<or> pdf_title = Some []) \<and> overview \<noteq> [] \<longrightarrow>
               title doc = take 100 overview) \<and>
            ((pdf_title = None \<or> pdf_title = Some []) \<and> overview = [] \<longrightarrow>
               title doc = lit ''RFP Document'')"
proof -
  from build_document_Inr[OF document_sent_build[OF assms]]
  have "document_title (py_str sv) rfp_analysis pdf_title = Inr (title doc)"
    by auto
  from document_title_Inr[OF this] show ?thesis
    by (auto simp: Let_def title_given_def)
qed

lemma get_each_total: "\<exists>vs. get_each (JObj kvs) ks = Inr vs"
  by (simp add: get_each_JObj)

lemma build_document_succeeds:
  assumes "\<forall>cat\<in>{key_core_overview, key_schedule_milestones, key_budget_price, key_requirements,
              key_evaluation}.
             map_of a cat = None \<or> (\<exists>kvs. map_of a cat = Some (JObj kvs))"
  shows "\<exists>doc. build_document sv vec a c t = Inr doc"
proof -
  have 1: "\<exists>x. document_title (py_str sv) a t = Inr x"
    using assms by (auto simp: document_title_def project_overview_def and_then_def dict_get_def)
  have 2: "\<exists>x. budget_range_of a = Inr x"
    using assms by (auto simp: budget_range_of_def dict_get_def)
  have 3: "\<exists>x. submission_deadline_of a = Inr x"
    using assms by (auto simp: submission_deadline_of_def dict_get_def)
  have 4: "\<exists>x. technical_requirements a = Inr x"
    using assms by (auto simp: technical_requirements_def get_each_JObj and_then_def)
  have 5: "\<exists>x. evaluation_criteria_of a = Inr x"
    using assms by (auto simp: evaluation_criteria_of_def get_each_JObj and_then_def)
  from 1 2 3 4 5 show ?thesis
    by (auto simp: build_document_def and_then_def)
qed

text \<open>
  Claim C5, amended. For an analysis without category 4, the evaluation step does not fail
  and yields the empty mapping; so every document handed to the index has the serialised
  empty mapping as its \<open>evaluation_criteria\<close>, and a document is handed over whenever
  each of the categories 1, 2, 3 and 5 is absent or a mapping.
\<close>

theorem evaluation_criteria_without_category:
  assumes "map_of rfp_analysis key_evaluation = None"
  shows "evaluation_criteria_of rfp_analysis = Inr (JObj []) \<and>
    (\<forall>doc. document_sent (store_rfp_in_search sv rfp_analysis rfp_content pdf_title) = Some doc
        \<longrightarrow> evaluation_criteria doc = Dumps (JObj [])) \<and>
    ((\<forall>cat\<in>{key_core_overview, key_schedule_milestones, key_budget_price, key_requirements}.
        map_of rfp_analysis cat = None \<or> (\<exists>kvs. map_of rfp_analysis cat = Some (JObj kvs)))
      \<longrightarrow> (\<exists>doc. document_sent (store_rfp_in_search sv rfp_analysis rfp_content pdf_title)
                  = Some doc))"
proof (intro conjI allI impI)
  show e: "evaluation_criteria_of rfp_analysis = Inr (JObj [])"
    using assms by (simp add: evaluation_criteria_of_def)
  show "evaluation_criteria doc = Dumps (JObj [])"
    if "document_sent (store_rfp_in_search sv rfp_analysis rfp_content pdf_title) = Some doc" for doc
    using build_document_Inr[OF document_sent_build[OF that]] e by auto
  show "\<exists>doc. document_sent (store_rfp_in_search sv rfp_analysis rfp_content pdf_title) = Some doc"
    if "\<forall>cat\<in>{key_core_overview, key_schedule_milestones, key_budget_price, key_requirements}.
        map_of rfp_analysis cat = None \<or> (\<exists>kvs. map_of rfp_analysis cat = Some (JObj kvs))"
  proof -
    from that assms have "\<forall>cat\<in>{key_core_overview, key_schedule_milestones, key_budget_price,
        key_requirements, key_evaluation}.
        map_of rfp_analysis cat = None \<or> (\<exists>kvs. map_of rfp_analysis cat = Some (JObj kvs))"
      by simp
    from build_document_succeeds[OF this] show ?thesis
      by (blast intro: build_document_sent)
  qed
qed


lemmas key_defs = key_core_overview_def key_background_purpose_def key_expected_outcome_def
  key_schedule_milestones_def key_qa_deadline_def key_budget_price_def key_estimated_budget_def
  key_evaluation_def key_scoring_def key_bonus_penalty_def key_disqualification_def
  key_requirements_def key_functional_def key_non_functional_def key_interface_def key_data_def
  key_compatibility_def

lemmas store_defs = store_rfp_in_search_def build_document_def document_title_def
  project_overview_def budget_range_of_def submission_deadline_of_def technical_requirements_def
  evaluation_criteria_of_def requirement_keys_def evaluation_keys_def and_then_def dict_get_def
  title_given_def format_value_def get_embedding_def example_services_def strip_def isspace_def
  lit_def

text \<open>
  The example of the claim: category 5 holds the non-functional sub-field only, with the
  value \<open>load \<ge> 1000 rps\<close>, and the list has that one element.
\<close>

theorem requirements_flattened_witness:
  "map_option requirements
     (document_sent (store_rfp_in_search example_services
        [(key_requirements,
          JObj [(key_non_functional,
                 JStr [108, 111, 97, 100, 32, 8805, 32, 49, 48, 48, 48, 32, 114, 112, 115])])]
        (lit ''abc'') None)) =
   Some (Dumps (JArr [JStr [108, 111, 97, 100, 32, 8805, 32, 49, 48, 48, 48, 32, 114, 112, 115]]))"
proof -
  obtain doc where doc: "document_sent (store_rfp_in_search example_services
        [(key_requirements,
          JObj [(key_non_functional,
                 JStr [108, 111, 97, 100, 32, 8805, 32, 49, 48, 48, 48, 32, 114, 112, 115])])]
        (lit ''abc'') None) = Some doc"
    by (simp add: store_defs key_defs)
  from requirements_flattened[OF doc] have "requirements doc =
      Dumps (JArr [JStr [108, 111, 97, 100, 32, 8805, 32, 49, 48, 48, 48, 32, 114, 112, 115]])"
    by (simp add: sub_field_def key_defs)
  with doc show ?thesis by simp
qed

theorem project_type_default_witness:
  "map_option project_type
     (document_sent (store_rfp_in_search example_services
        [(key_budget_price, JObj [(key_estimated_budget, JStr (lit ''100000''))]),
         (key_evaluation, JObj [(key_scoring, JStr (lit ''70/30''))])]
        (lit ''abc'') (Some (lit ''Tender'')))) =
   Some (JStr [])"
proof -
  obtain doc where doc: "document_sent (store_rfp_in_search example_services
        [(key_budget_price, JObj [(key_estimated_budget, JStr (lit ''100000''))]),
         (key_evaluation, JObj [(key_scoring, JStr (lit ''70/30''))])]
        (lit ''abc'') (Some (lit ''Tender''))) = Some doc"
    by (simp add: store_defs key_defs)
  have "map_of [(key_budget_price, JObj [(key_estimated_budget, JStr (lit ''100000''))]),
         (key_evaluation, JObj [(key_scoring, JStr (lit ''70/30''))])] (lit ''project_type'') = None"
    by (simp add: key_defs lit_def)
  from project_type_default[OF this doc] doc show ?thesis by simp
qed

text \<open>
  Claim C5, as stated, fails: without category 4 the mapping is empty, it does not bind
  the three keys to empty strings.
\<close>

theorem evaluation_criteria_not_three_keys:
  "map_of [(key_budget_price, JObj [(key_estimated_budget, JStr (lit ''100000''))])] key_evaluation
     = None \<and>
   map_option evaluation_criteria
     (document_sent (store_rfp_in_search example_services
        [(key_budget_price, JObj [(key_estimated_budget, JStr (lit ''100000''))])]
        (lit ''abc'') None)) = Some (Dumps (JObj [])) \<and>
   Dumps (JObj []) \<noteq>
     Dumps (JObj [(key_scoring, JStr []), (key_bonus_penalty, JStr []),
                  (key_disqualification, JStr [])])"
  by (simp add: store_defs key_defs)

theorem evaluation_criteria_without_category_witness:
  "\<exists>doc. document_sent (store_rfp_in_search example_services
        [(key_requirements, JObj [(key_functional, JStr (lit ''login''))])]
        (lit ''abc'') None) = Some doc \<and>
      evaluation_criteria doc = Dumps (JObj [])"
proof -
  have absent: "map_of [(key_requirements, JObj [(key_functional, JStr (lit ''login''))])]
      key_evaluation = None"
    by (simp add: key_defs)
  have "\<forall>cat\<in>{key_core_overview, key_schedule_milestones, key_budget_price, key_requirements}.
      map_of [(key_requirements, JObj [(key_functional, JStr (lit ''login''))])] cat = None \<or>
      (\<exists>kvs. map_of [(key_requirements, JObj [(key_functional, JStr (lit ''login''))])] cat
          = Some (JObj kvs))"
    by (simp add: key_defs)
  with evaluation_criteria_without_category[OF absent, of example_services "lit ''abc''" None]
  show ?thesis by blast
qed

text \<open>
  Three examples: a supplied title wins over category 1; without it category 1 gives the
  title; without both the fallback is used.
\<close>

theorem title_precedence_witness:
  "map_option title
     (document_sent (store_rfp_in_search example_services
        [(key_core_overview, JObj [(key_background_purpose, JStr (lit ''New portal'')),
                                   (key_expected_outcome, JStr (lit ''Faster service''))])]
        (lit ''abc'') (Some (lit ''Tender 7'')))) = Some (lit ''Tender 7'') \<and>
   map_option title
     (document_sent (store_rfp_in_search example_services
        [(key_core_overview, JObj [(key_background_purpose, JStr (lit ''New portal'')),
                                   (key_expected_outcome, JStr (lit ''Faster service''))])]
        (lit ''abc'') None)) = Some (lit ''New portal Faster service'') \<and>
   map_option title
     (document_sent (store_rfp_in_search example_services
        [(key_budget_price, JObj [])] (lit ''abc'') None)) = Some (lit ''RFP Document'')"
proof -
  obtain d1 where d1: "document_sent (store_rfp_in_search example_services
        [(key_core_overview, JObj [(key_background_purpose, JStr (lit ''New portal'')),
                                   (key_expected_outcome, JStr (lit ''Faster service''))])]
        (lit ''abc'') (Some (lit ''Tender 7''))) = Some d1"
    by (simp add: store_defs key_defs)
  obtain d2 where d2: "document_sent (store_rfp_in_search example_services
        [(key_core_overview, JObj [(key_background_purpose, JStr (lit ''New portal'')),
                                   (key_expected_outcome, JStr (lit ''Faster service''))])]
        (lit ''abc'') None) = Some d2"
    by (simp add: store_defs key_defs)
  obtain d3 where d3: "document_sent (store_rfp_in_search example_services
        [(key_budget_price, JObj [])] (lit ''abc'') None) = Some d3"
    by (simp add: store_defs key_defs)
  from title_precedence[OF d1] have "title d1 = lit ''Tender 7''"
    by (simp add: Let_def lit_def)
  moreover from title_precedence[OF d2] have "title d2 = lit ''New portal Faster service''"
    by (simp add: Let_def sub_field_def key_defs format_value_def strip_def isspace_def lit_def)
  moreover from title_precedence[OF d3] have "title d3 = lit ''RFP Document''"
    by (simp add: Let_def sub_field_def key_defs format_value_def strip_def isspace_def lit_def)
  ultimately show ?thesis using d1 d2 d3 by simp
qed

section \<open>The embedding aggregator: the claims\<close>


lemma embed_chunks_requests:
  "embed_chunks svc k cs acc = (res, reqs) \<Longrightarrow>
     (\<forall>j. Suc j < length reqs \<longrightarrow> (\<exists>v. svc (k + j) (reqs ! j) = Inr v)) \<and>
     (case res of
        Inl e \<Rightarrow> reqs \<noteq> [] \<and> svc (k + (length reqs - 1)) (reqs ! (length reqs - 1)) = Inl e
      | Inr embs \<Rightarrow> (\<forall>j<length reqs. \<exists>v. svc (k + j) (reqs ! j) = Inr v))"
proof (induction cs arbitrary: k acc res reqs)
  case Nil
  then show ?case by auto
next
  case (Cons c cs)
  show ?case
  proof (cases "svc k c")
    case (Inl e)
    with Cons.prems show ?thesis by auto
  next
    case (Inr v)
    obtain res' reqs' where r: "embed_chunks svc (Suc k) cs (acc @ [v]) = (res', reqs')"
      by (cases "embed_chunks svc (Suc k) cs (acc @ [v])")
    with Cons.prems Inr have res: "res = res'" and reqs: "reqs = c # reqs'"
      by simp_all
    note IH = Cons.IH[OF r]
    have a: "\<exists>v. svc (k + j) (reqs ! j) = Inr v" if "Suc j < length reqs" for j
    proof (cases j)
      case 0
      with Inr reqs show ?thesis by simp
    next
      case (Suc j')
      with that reqs have "Suc j' < length reqs'" by simp
      with IH have "\<exists>v. svc (Suc k + j') (reqs' ! j') = Inr v" by blast
      with Suc reqs show ?thesis by simp
    qed
    have b: "case res of
        Inl e \<Rightarrow> reqs \<noteq> [] \<and> svc (k + (length reqs - 1)) (reqs ! (length reqs - 1)) = Inl e
      | Inr embs \<Rightarrow> (\<forall>j<length reqs. \<exists>v. svc (k + j) (reqs ! j) = Inr v)"
    proof (cases res')
      case (Inl e)
      with IH have ne: "reqs' \<noteq> []"
        and f: "svc (Suc k + (length reqs' - 1)) (reqs' ! (length reqs' - 1)) = Inl e"
        by simp_all
      from ne obtain n where n: "length reqs' = Suc n" by (cases reqs') simp_all
      from f n have "svc (k + Suc n) (reqs' ! n) = Inl e" by simp
      moreover from n reqs have "length reqs - 1 = Suc n" and "reqs ! Suc n = reqs' ! n"
        by simp_all
      ultimately have "svc (k + (length reqs - 1)) (reqs ! (length reqs - 1)) = Inl e"
        by simp
      with reqs Inl res show ?thesis by simp
    next
      case (Inr embs)
      with IH have all: "\<forall>j<length reqs'. \<exists>v. svc (Suc k + j) (reqs' ! j) = Inr v" by simp
      have "\<exists>v. svc (k + j) (reqs ! j) = Inr v" if "j < length reqs" for j
      proof (cases j)
        case 0
        with \<open>svc k c = Inr v\<close> reqs show ?thesis by simp
      next
        case (Suc j')
        with that reqs have "j' < length reqs'" by simp
        with all have "\<exists>v. svc (Suc k + j') (reqs' ! j') = Inr v" by blast
        with Suc reqs show ?thesis by simp
      qed
      with Inr res show ?thesis by simp
    qed
    from a b show ?thesis by blast
  qed
qed

lemma get_embedding_requests_long:
  assumes "\<not> int (length text) \<le> 4000"
    and "embed_chunks svc 0 (split_text_into_chunks text 4000) [] = (res, reqs)"
  shows "requests (get_embedding mean svc text) = reqs"
  using assms by (simp add: get_embedding_def split: sum.splits)

text \<open>
  Claim C8, amended. If any request that a run of \<open>get_embedding\<close> issued failed,
  then it was the last request of the run (the aggregation stopped there), the run reported
  the failure through \<open>st.error\<close> and returned the empty list: the vectors already
  collected are dropped and no average of them is returned. The caller is handed the empty
  list, not an error.
\<close>

theorem failed_request_aborts:
  assumes "i < length (requests (get_embedding mean svc text))"
    and "svc i (requests (get_embedding mean svc text) ! i) = Inl e"
  shows "returned (get_embedding mean svc text) = [] \<and>
         reported (get_embedding mean svc text) = [EmbeddingFailed e] \<and>
         length (requests (get_embedding mean svc text)) = Suc i"
proof (cases "int (length text) \<le> 4000")
  case True
  then have "requests (get_embedding mean svc text) = [text]"
    by (simp add: get_embedding_def split: sum.splits)
  with assms have "svc 0 text = Inl e" and "i = 0" by simp_all
  with True show ?thesis by (simp add: get_embedding_def)
next
  case False
  obtain res reqs where r: "embed_chunks svc 0 (split_text_into_chunks text 4000) [] = (res, reqs)"
    by (cases "embed_chunks svc 0 (split_text_into_chunks text 4000) []")
  have reqs: "requests (get_embedding mean svc text) = reqs"
    using False r by (rule get_embedding_requests_long)
  from assms have i: "i < length reqs" and f: "svc i (reqs ! i) = Inl e"
    by (simp_all add: reqs)
  from embed_chunks_requests[OF r]
  have ok: "\<forall>j. Suc j < length reqs \<longrightarrow> (\<exists>v. svc j (reqs ! j) = Inr v)"
    and last: "case res of
        Inl e \<Rightarrow> reqs \<noteq> [] \<and> svc (length reqs - 1) (reqs ! (length reqs - 1)) = Inl e
      | Inr embs \<Rightarrow> (\<forall>j<length reqs. \<exists>v. svc j (reqs ! j) = Inr v)"
    by (cases res; simp)+
  from ok f have "\<not> Suc i < length reqs" by auto
  with i have len: "length reqs = Suc i" by simp
  show ?thesis
  proof (cases res)
    case (Inl e')
    with last len f have "e' = e" by simp
    with Inl False r reqs len show ?thesis by (simp add: get_embedding_def)
  next
    case (Inr embs)
    with last i f show ?thesis by auto
  qed
qed


lemma embed_chunks_all_ok:
  "\<forall>j<length cs. \<exists>v. svc (k + j) (cs ! j) = Inr v \<Longrightarrow>
   embed_chunks svc k cs acc =
     (Inr (acc @ map (\<lambda>j. projr (svc (k + j) (cs ! j))) [0..<length cs]), cs)"
proof (induction cs arbitrary: k acc)
  case Nil
  show ?case by simp
next
  case (Cons c cs)
  from Cons.prems obtain v where v: "svc k c = Inr v" by fastforce
  have "\<forall>j<length cs. \<exists>v. svc (Suc k + j) (cs ! j) = Inr v"
  proof (intro allI impI)
    fix j assume "j < length cs"
    then have "Suc j < length (c # cs)" by simp
    with Cons.prems have "\<exists>v. svc (k + Suc j) ((c # cs) ! Suc j) = Inr v" by blast
    then show "\<exists>v. svc (Suc k + j) (cs ! j) = Inr v" by simp
  qed
  from Cons.IH[OF this, of "acc @ [v]"] v show ?case
    by (simp add: map_upt_Suc del: upt_Suc)
qed

lemma np_mean_axis0_uniform:
  assumes "rows \<noteq> []" and "\<forall>r\<in>set rows. length r = n"
  shows "np_mean_axis0 mean rows = Inr (map (\<lambda>j. mean (map (\<lambda>r. r ! j) rows)) [0..<n])"
  using assms by (cases rows) (simp_all add: np_mean_axis0_def)

text \<open>
  Claim C3, amended. Let every request succeed with a vector of 1536 entries. A text of at
  most 4000 characters costs one request, for the text itself, whose vector is returned.
  A longer text costs one request per chunk of \<open>split_text_into_chunks text 4000\<close>, in
  order; when there is a chunk, entry \<open>j\<close> of the result is numpy's float64 mean of the
  entries \<open>j\<close> of the chunk vectors, and the result has 1536 entries; when there is none,
  the result is the empty list. Nothing is reported.
\<close>

theorem embedding_requests_and_mean:
  assumes "\<forall>i x. \<exists>v. svc i x = Inr v \<and> length v = 1536"
  shows "let chunks = split_text_into_chunks text 4000;
             vs = map (\<lambda>i. projr (svc i (chunks ! i))) [0..<length chunks];
             r = get_embedding mean svc text
         in reported r = [] \<and>
            (if int (length text) \<le> 4000
             then requests r = [text] \<and> svc 0 text = Inr (returned r) \<and>
                  length (returned r) = 1536
             else requests r = chunks \<and>
                  (if chunks = [] then returned r = []
                   else returned r =
                          map (\<lambda>j. mean (map (\<lambda>v. v ! j) vs)) [0..<1536] \<and>
                        length (returned r) = 1536))"
proof (cases "int (length text) \<le> 4000")
  case True
  from assms obtain v where "svc 0 text = Inr v" and "length v = 1536" by blast
  with True show ?thesis by (simp add: get_embedding_def Let_def)
next
  case False
  define chunks where "chunks = split_text_into_chunks text 4000"
  define vs where "vs = map (\<lambda>i. projr (svc i (chunks ! i))) [0..<length chunks]"
  have "\<forall>j<length chunks. \<exists>v. svc (0 + j) (chunks ! j) = Inr v"
    using assms by fastforce
  from embed_chunks_all_ok[OF this, of "[]"]
  have run: "embed_chunks svc 0 chunks [] = (Inr vs, chunks)"
    by (simp add: vs_def)
  have len: "\<forall>v\<in>set vs. length v = 1536"
  proof
    fix v assume "v \<in> set vs"
    then obtain i where "v = projr (svc i (chunks ! i))" by (auto simp: vs_def)
    moreover from assms obtain w where "svc i (chunks ! i) = Inr w" and "length w = 1536"
      by blast
    ultimately show "length v = 1536" by simp
  qed
  have empty: "vs = [] \<longleftrightarrow> chunks = []" by (simp add: vs_def)
  have lvs: "length vs = length chunks" by (simp add: vs_def)
  show ?thesis
  proof (cases "chunks = []")
    case True
    with False run empty show ?thesis
      by (simp add: get_embedding_def Let_def chunks_def[symmetric])
  next
    case ne: False
    with empty have "vs \<noteq> []" by simp
    from np_mean_axis0_uniform[OF this len]
    have "np_mean_axis0 mean vs = Inr (map (\<lambda>j. mean (map (\<lambda>v. v ! j) vs)) [0..<1536])" .
    with False run ne \<open>vs \<noteq> []\<close> show ?thesis
      by (simp add: get_embedding_def Let_def chunks_def[symmetric] vs_def[symmetric])
  qed
qed


lemma whitespace_text_no_chunks:
  assumes "\<forall>x\<in>set t. isspace x" and "n < int (length t)"
  shows "split_text_into_chunks t n = []"
proof -
  from assms(1) have "46 \<notin> set t" by auto
  then have "split_dot_space t = [t]" by (rule split_dot_space_no_dot)
  moreover have "split_ws t = []" using assms(1) by (rule split_ws_all_space)
  ultimately show ?thesis using assms(2)
    by (simp add: split_text_into_chunks_def sentence_chunks_def add_sentence_def)
qed

lemma two_word_chunks:
  assumes a: "single_word a" and b: "single_word b"
    and nodot: "46 \<notin> set a" "46 \<notin> set b"
    and long: "n < int (length a)" and short: "int (length b) + 2 \<le> n"
  shows "split_text_into_chunks (a @ 32 # b) n = [a, b @ [46]]"
proof -
  from a b have ne: "a \<noteq> []" "b \<noteq> []"
    by (simp_all add: single_word_def)
  from nodot have pieces: "split_dot_space (a @ 32 # b) = [a @ 32 # b]"
    by (intro split_dot_space_no_dot) simp
  have pack: "pack_word n (pack_word n ([], []) a) b = ([a], b)"
    using long a ne by (simp add: pack_word_def strip_single_word)
  have "add_sentence n ([], []) (a @ 32 # b) = ([a], b @ [46, 32])"
    using long ne by (simp add: add_sentence_def split_ws_two[OF a b] pack)
  then have first: "sentence_chunks (a @ 32 # b) n = [a, b @ [46]]"
    using ne by (simp add: sentence_chunks_def pieces strip_word_dot[OF b])
  have "pack_word n ([], []) a = ([], a)"
    using long by (simp add: pack_word_def)
  then have 1: "recheck_chunk n [] a = [a]"
    using long a ne by (simp add: recheck_chunk_def split_ws_single strip_single_word)
  have 2: "recheck_chunk n [a] (b @ [46]) = [a, b @ [46]]"
    using short by (simp add: recheck_chunk_def)
  show ?thesis by (simp add: split_text_into_chunks_def first 1 2)
qed

text \<open>
  Claim C3, as stated, fails: 4001 spaces are longer than the threshold and give no chunk,
  so no request is issued and the result has length 0, not 1536, although the service
  answers every request with 1536 entries.
\<close>

theorem whitespace_text_empty_embedding:
  "length (returned (get_embedding example_mean (\<lambda>i x. Inr (replicate 1536 (Finite 0))) (replicate 4001 32))) = 0 \<and>
   requests (get_embedding example_mean (\<lambda>i x. Inr (replicate 1536 (Finite 0))) (replicate 4001 32)) = []"
proof -
  have "split_text_into_chunks (replicate 4001 32) 4000 = []"
    by (rule whitespace_text_no_chunks) simp_all
  then show ?thesis by (simp add: get_embedding_def)
qed

lemma long_text_chunks:
  "split_text_into_chunks (replicate 4001 97 @ 32 # lit ''b'') 4000 = [replicate 4001 97, lit ''b.'']"
proof -
  have "split_text_into_chunks (replicate 4001 97 @ 32 # lit ''b'') 4000 =
      [replicate 4001 97, lit ''b'' @ [46]]"
    by (rule two_word_chunks) (simp_all add: single_word_def isspace_def lit_def)
  then show ?thesis by (simp add: lit_def)
qed

text \<open>
  An example of two chunks: a word of 4001 letters and the word \<open>b\<close>, with a service
  that answers request \<open>i\<close> with 1536 entries \<open>i\<close>; the mean of 0 and 1 is one half.
\<close>

theorem embedding_requests_and_mean_witness:
  "requests (get_embedding example_mean (\<lambda>i x. Inr (replicate 1536 (Finite (of_nat i))))
      (replicate 4001 97 @ 32 # lit ''b'')) = [replicate 4001 97, lit ''b.''] \<and>
   returned (get_embedding example_mean (\<lambda>i x. Inr (replicate 1536 (Finite (of_nat i))))
      (replicate 4001 97 @ 32 # lit ''b'')) = replicate 1536 (Finite (1 / 2))"
proof -
  have ok: "\<forall>i x. \<exists>v. (\<lambda>i x. Inr (replicate 1536 (Finite (of_nat i))) :: exn + pyfloat list) i x
      = Inr v \<and> length v = 1536"
    by simp
  have long: "\<not> int (length (replicate 4001 (97::nat) @ 32 # lit ''b'')) \<le> 4000"
    by simp
  have "map (\<lambda>j. example_mean [replicate 1536 (Finite 0) ! j, replicate 1536 (Finite 1) ! j])
      [0..<1536] = map (\<lambda>j. Finite (1 / 2)) [0..<1536]"
    by (rule map_cong) (simp_all add: example_mean_def)
  also have "\<dots> = replicate 1536 (Finite (1 / 2))"
    by (simp add: map_replicate_const)
  finally have mean: "map (\<lambda>j. example_mean
      [replicate 1536 (Finite 0) ! j, replicate 1536 (Finite 1) ! j]) [0..<1536]
      = replicate 1536 (Finite (1 / 2))" .
  from embedding_requests_and_mean[OF ok, of "replicate 4001 97 @ 32 # lit ''b''" example_mean] long
  have "requests (get_embedding example_mean (\<lambda>i x. Inr (replicate 1536 (Finite (of_nat i))))
      (replicate 4001 97 @ 32 # lit ''b'')) = [replicate 4001 97, lit ''b.''] \<and>
    returned (get_embedding example_mean (\<lambda>i x. Inr (replicate 1536 (Finite (of_nat i))))
      (replicate 4001 97 @ 32 # lit ''b'')) =
      map (\<lambda>j. example_mean [replicate 1536 (Finite 0) ! j, replicate 1536 (Finite 1) ! j])
        [0..<1536]"
    by (simp add: Let_def long_text_chunks)
  then show ?thesis by (simp only: mean)
qed

lemma example_failed_run:
  "get_embedding (column_mean example_services) (embed example_services)
     (replicate 4001 97 @ 32 # lit ''b'') =
   \<lparr>returned = [], requests = [replicate 4001 97, lit ''b.''],
    reported = [EmbeddingFailed (RequestError (lit ''timeout''))]\<rparr>"
  by (simp add: get_embedding_def long_text_chunks example_services_def)

text \<open>
  Claim C8, as stated, fails: no error is surfaced to the caller. With the example
  services the second request fails; \<open>get_embedding\<close> reports it and returns the empty
  list, and its caller \<open>store_rfp_in_search\<close> goes on, uploads the document with the
  empty vector and returns \<open>True\<close> without a report of its own.
\<close>

theorem failed_embedding_not_surfaced:
  "reported (embedding_run (store_rfp_in_search example_services
      [(key_budget_price, JObj [])] (replicate 4001 97 @ 32 # lit ''b'') None))
     = [EmbeddingFailed (RequestError (lit ''timeout''))] \<and>
   stored (store_rfp_in_search example_services
      [(key_budget_price, JObj [])] (replicate 4001 97 @ 32 # lit ''b'') None) \<and>
   store_reported (store_rfp_in_search example_services
      [(key_budget_price, JObj [])] (replicate 4001 97 @ 32 # lit ''b'') None) = [] \<and>
   map_option content_vector (document_sent (store_rfp_in_search example_services
      [(key_budget_price, JObj [])] (replicate 4001 97 @ 32 # lit ''b'') None)) = Some []"
  unfolding store_rfp_in_search_def example_failed_run
  by (simp add: build_document_def document_title_def project_overview_def budget_range_of_def
      submission_deadline_of_def technical_requirements_def evaluation_criteria_of_def
      and_then_def dict_get_def title_given_def example_services_def key_defs lit_def)

text \<open>
  The same run seen from \<open>get_embedding\<close>: the vector of the first chunk is not returned.
\<close>

theorem failed_request_aborts_witness:
  "requests (get_embedding example_mean (embed example_services) (replicate 4001 97 @ 32 # lit ''b''))
     = [replicate 4001 97, lit ''b.''] \<and>
   embed example_services 0 (replicate 4001 97) = Inr [Finite 1, Finite 2, Finite 3] \<and>
   embed example_services 1 (lit ''b.'') = Inl (RequestError (lit ''timeout'')) \<and>
   returned (get_embedding example_mean (embed example_services) (replicate 4001 97 @ 32 # lit ''b'')) = [] \<and>
   reported (get_embedding example_mean (embed example_services) (replicate 4001 97 @ 32 # lit ''b''))
     = [EmbeddingFailed (RequestError (lit ''timeout''))]"
proof -
  have reqs: "requests (get_embedding example_mean (embed example_services) (replicate 4001 97 @ 32 # lit ''b''))
     = [replicate 4001 97, lit ''b.'']"
    by (simp add: get_embedding_def long_text_chunks example_services_def)
  have first: "embed example_services 0 (replicate 4001 97) = Inr [Finite 1, Finite 2, Finite 3]"
    by (simp add: example_services_def)
  have second: "embed example_services 1 (lit ''b.'') = Inl (RequestError (lit ''timeout''))"
    by (simp add: example_services_def)
  have "1 < length (requests (get_embedding example_mean (embed example_services)
      (replicate 4001 97 @ 32 # lit ''b'')))"
    by (simp add: reqs)
  moreover have "embed example_services 1 (requests (get_embedding example_mean (embed example_services)
      (replicate 4001 97 @ 32 # lit ''b'')) ! 1) = Inl (RequestError (lit ''timeout''))"
    by (simp add: reqs example_services_def)
  ultimately have "returned (get_embedding example_mean (embed example_services)
        (replicate 4001 97 @ 32 # lit ''b'')) = [] \<and>
      reported (get_embedding example_mean (embed example_services) (replicate 4001 97 @ 32 # lit ''b''))
        = [EmbeddingFailed (RequestError (lit ''timeout''))] \<and>
      length (requests (get_embedding example_mean (embed example_services)
        (replicate 4001 97 @ 32 # lit ''b''))) = Suc 1"
    by (rule failed_request_aborts)
  with reqs first second show ?thesis by blast
qed

section \<open>Reading the response: the claims\<close>


lemma json_match_span:
  assumes "123 \<notin> set pre" and "125 \<notin> set post"
  shows "json_match (pre @ 123 # body @ 125 # post) = Some (123 # body @ [125])"
proof -
  from assms(1) have "\<forall>x\<in>set pre. x \<noteq> 123" by auto
  then have rest: "dropWhile (\<lambda>c. c \<noteq> 123) (pre @ 123 # body @ 125 # post)
      = 123 # body @ 125 # post"
    by simp
  have "dropWhile (\<lambda>c. c \<noteq> 125) (rev post @ 125 # rev body @ [123])
      = dropWhile (\<lambda>c. c \<noteq> 125) (125 # rev body @ [123])"
    using assms(2) by (intro dropWhile_append2) auto
  then have "dropWhile (\<lambda>c. c \<noteq> 125) (rev post @ 125 # rev body @ [123])
      = 125 # rev body @ [123]"
    by simp
  then have "rev (dropWhile (\<lambda>c. c \<noteq> 125) (rev (123 # body @ 125 # post))) = 123 # body @ [125]"
    by simp
  with rest show ?thesis by (simp add: json_match_def)
qed

lemma json_match_none:
  assumes "\<nexists>pre body post. content = pre @ 123 # body @ 125 # post"
  shows "json_match content = None"
proof (rule ccontr)
  assume "json_match content \<noteq> None"
  then have in_rest: "125 \<in> set (dropWhile (\<lambda>c. c \<noteq> 123) content)"
    by (simp add: json_match_def Let_def split: if_splits)
  then have ne: "dropWhile (\<lambda>c. c \<noteq> 123) content \<noteq> []"
    by (auto simp del: dropWhile_eq_Nil_conv)
  from hd_dropWhile[OF ne] have "hd (dropWhile (\<lambda>c. c \<noteq> 123) content) = 123" by simp
  with ne obtain tl where rest: "dropWhile (\<lambda>c. c \<noteq> 123) content = 123 # tl"
    by (cases "dropWhile (\<lambda>c. c \<noteq> 123) content") auto
  with in_rest have "125 \<in> set tl" by simp
  then obtain body post where "tl = body @ 125 # post"
    by (auto dest: split_list)
  with rest have "content = takeWhile (\<lambda>c. c \<noteq> 123) content @ 123 # body @ 125 # post"
    using takeWhile_dropWhile_id[of "\<lambda>c. c \<noteq> 123" content] by simp
  with assms show False by blast
qed

text \<open>
  Claim C7, amended. The analyzer issues one chat request and never a second one. When the
  request fails, the result is the empty analysis with a report. When the response has an
  opening brace that a closing brace follows, the text from the first opening brace to the
  last closing brace is handed to \<open>json.loads\<close>, and nothing else is: its value is the
  result, and a failure gives the empty analysis with a report. So prose without an opening
  brace, followed by one JSON object, is ignored. When the response has no such text, the
  result is the empty analysis with the report that no JSON was found.
\<close>

theorem response_span_parsed:
  "let p = prompt sv rfp_content; r = analyze_rfp_with_gpt sv rfp_content
   in chat_requests r = [p] \<and>
      (\<forall>e. chat sv p = Inl e \<longrightarrow>
         analysis r = JObj [] \<and> analysis_reported r = [AnalysisFailed e]) \<and>
      (\<forall>pre body post.
         chat sv p = Inr (pre @ 123 # body @ 125 # post) \<and> 123 \<notin> set pre \<and> 125 \<notin> set post \<longrightarrow>
         (case loads sv (123 # body @ [125]) of
            Inr j \<Rightarrow> analysis r = j \<and> analysis_reported r = []
          | Inl e \<Rightarrow> analysis r = JObj [] \<and> analysis_reported r = [AnalysisFailed e])) \<and>
      (\<forall>content.
         chat sv p = Inr content \<and> (\<nexists>pre body post. content = pre @ 123 # body @ 125 # post) \<longrightarrow>
         analysis r = JObj [] \<and> analysis_reported r = [JsonNotFound])"
proof -
  have 1: "chat_requests (analyze_rfp_with_gpt sv rfp_content) = [prompt sv rfp_content]"
    by (simp add: analyze_rfp_with_gpt_def Let_def split: sum.splits option.splits)
  have 2: "analysis (analyze_rfp_with_gpt sv rfp_content) = JObj [] \<and>
      analysis_reported (analyze_rfp_with_gpt sv rfp_content) = [AnalysisFailed e]"
    if "chat sv (prompt sv rfp_content) = Inl e" for e
    using that by (simp add: analyze_rfp_with_gpt_def Let_def)
  have 3: "case loads sv (123 # body @ [125]) of
        Inr j \<Rightarrow> analysis (analyze_rfp_with_gpt sv rfp_content) = j \<and>
                 analysis_reported (analyze_rfp_with_gpt sv rfp_content) = []
      | Inl e \<Rightarrow> analysis (analyze_rfp_with_gpt sv rfp_content) = JObj [] \<and>
                 analysis_reported (analyze_rfp_with_gpt sv rfp_content) = [AnalysisFailed e]"
    if "chat sv (prompt sv rfp_content) = Inr (pre @ 123 # body @ 125 # post)"
      and "123 \<notin> set pre" and "125 \<notin> set post" for pre body post
    using that(1) json_match_span[OF that(2,3), of body]
    by (simp add: analyze_rfp_with_gpt_def Let_def split: sum.splits)
  have 4: "analysis (analyze_rfp_with_gpt sv rfp_content) = JObj [] \<and>
      analysis_reported (analyze_rfp_with_gpt sv rfp_content) = [JsonNotFound]"
    if "chat sv (prompt sv rfp_content) = Inr content"
      and "\<nexists>pre body post. content = pre @ 123 # body @ 125 # post" for content
    using that(1) json_match_none[OF that(2)]
    by (simp add: analyze_rfp_with_gpt_def Let_def)
  from 1 2 3 4 show ?thesis unfolding Let_def by blast
qed

text \<open>
  Claim C7, as stated, fails: on a response with two objects the match runs from the first
  opening brace to the last closing brace, while the first balanced span is the first
  object alone.
\<close>

theorem greedy_match_not_balanced:
  "json_match (lit ''{} and {}'') = Some (lit ''{} and {}'') \<and>
   first_balanced_span (lit ''{} and {}'') = Some (lit ''{}'')"
  by (simp add: json_match_def first_balanced_span_def lit_def)

text \<open>
  The example services answer with prose followed by one object: the object is parsed.
\<close>

theorem response_span_parsed_witness:
  "chat example_services (prompt example_services (lit ''abc''))
     = Inr (lit ''Here is the analysis: '' @ example_object) \<and>
   analysis (analyze_rfp_with_gpt example_services (lit ''abc'')) = JObj [(lit ''k'', JInt 1)] \<and>
   analysis_reported (analyze_rfp_with_gpt example_services (lit ''abc'')) = [] \<and>
   chat_requests (analyze_rfp_with_gpt example_services (lit ''abc'')) = [lit ''RFP: abc'']"
proof -
  have c: "chat example_services (prompt example_services (lit ''abc''))
      = Inr (lit ''Here is the analysis: '' @ 123 # [34, 107, 34, 58, 32, 49] @ 125 # [])"
    by (simp add: example_services_def example_object_def)
  have pre: "123 \<notin> set (lit ''Here is the analysis: '')"
    by (simp add: lit_def)
  have l: "loads example_services (123 # [34, 107, 34, 58, 32, 49] @ [125])
      = Inr (JObj [(lit ''k'', JInt 1)])"
    by (simp add: example_services_def example_object_def)
  note parsed = response_span_parsed[of example_services "lit ''abc''", unfolded Let_def]
  from parsed have 1: "chat_requests (analyze_rfp_with_gpt example_services (lit ''abc''))
        = [prompt example_services (lit ''abc'')]"
    by (rule conjunct1)
  from parsed have "\<forall>pre body post.
      chat example_services (prompt example_services (lit ''abc''))
        = Inr (pre @ 123 # body @ 125 # post) \<and> 123 \<notin> set pre \<and> 125 \<notin> set post \<longrightarrow>
      (case loads example_services (123 # body @ [125]) of
         Inr j \<Rightarrow> analysis (analyze_rfp_with_gpt example_services (lit ''abc'')) = j \<and>
                  analysis_reported (analyze_rfp_with_gpt example_services (lit ''abc'')) = []
       | Inl e \<Rightarrow> analysis (analyze_rfp_with_gpt example_services (lit ''abc'')) = JObj [] \<and>
                  analysis_reported (analyze_rfp_with_gpt example_services (lit ''abc''))
                    = [AnalysisFailed e])"
    by (elim conjE)
  from this[rule_format, of "lit ''Here is the analysis: ''" "[34, 107, 34, 58, 32, 49]" "[]"] c pre
  have "case loads example_services (123 # [34, 107, 34, 58, 32, 49] @ [125]) of
        Inr j \<Rightarrow> analysis (analyze_rfp_with_gpt example_services (lit ''abc'')) = j \<and>
                 analysis_reported (analyze_rfp_with_gpt example_services (lit ''abc'')) = []
      | Inl e \<Rightarrow> analysis (analyze_rfp_with_gpt example_services (lit ''abc'')) = JObj [] \<and>
                 analysis_reported (analyze_rfp_with_gpt example_services (lit ''abc''))
                   = [AnalysisFailed e]"
    by simp
  with 1
  have "chat_requests (analyze_rfp_with_gpt example_services (lit ''abc''))
        = [prompt example_services (lit ''abc'')]"
    and "analysis (analyze_rfp_with_gpt example_services (lit ''abc'')) = JObj [(lit ''k'', JInt 1)] \<and>
         analysis_reported (analyze_rfp_with_gpt example_services (lit ''abc'')) = []"
    unfolding l by simp_all
  then have "chat_requests (analyze_rfp_with_gpt example_services (lit ''abc'')) = [lit ''RFP: abc'']"
    and "analysis (analyze_rfp_with_gpt example_services (lit ''abc'')) = JObj [(lit ''k'', JInt 1)]"
    and "analysis_reported (analyze_rfp_with_gpt example_services (lit ''abc'')) = []"
    by (simp_all add: example_services_def lit_def)
  moreover have "chat example_services (prompt example_services (lit ''abc''))
     = Inr (lit ''Here is the analysis: '' @ example_object)"
    by (simp add: example_services_def)
  ultimately show ?thesis by blast
qed

end
